theory Spec2Isabelle
  imports Complex_Main
begin

section \<open>The swept-rule kernels of \<^verbatim>\<open>sweep.h\<close>\<close>

text \<open>
  The kernels are CUDA device code. Every thread runs the same body, parameterised by the
  built-in variables \<^verbatim>\<open>gridDim\<close>, \<^verbatim>\<open>blockDim\<close>, \<^verbatim>\<open>blockIdx\<close>,
  \<^verbatim>\<open>threadIdx\<close> and by the \<^verbatim>\<open>__constant__\<close> symbols the host fills in before a launch.
  The model keeps the constants in a record, the launch geometry in a second record, and passes
  the block index and thread index as pairs \<open>(x, y)\<close>.

  All index quantities are non-negative and are modelled as \<open>nat\<close>; the swept bounds
  \<^verbatim>\<open>lx, ux, ly, uy\<close> become negative in the kernels and are \<open>int\<close>. The built-in
  variables are 32-bit unsigned integers, so an expression with one of them as operand is
  evaluated modulo \<open>2^32\<close> before it is stored in an \<^verbatim>\<open>int\<close>. The reduction is
  written out where a global offset is computed, in \<^verbatim>\<open>get_gid\<close> and for the
  \<^verbatim>\<open>gid\<close> of \<^verbatim>\<open>edge_comm\<close>; the model keeps the residue, which is the value of the
  \<^verbatim>\<open>int\<close> whenever it is below \<open>2^31\<close>. The offsets derived from such an
  \<^verbatim>\<open>int\<close>, as \<^verbatim>\<open>gid+j*VARS+t*TIMES\<close>, are signed expressions, whose overflow C
  leaves undefined, and are modelled exactly. So are the linear thread index and the offsets
  into the tile buffer: the model is that of a launch of fewer than \<open>2^32\<close> threads, and
  the tile buffer is on-chip memory of a few thousand cells. The \<^verbatim>\<open>float\<close> constants
  \<^verbatim>\<open>ZERO\<close>,
  \<^verbatim>\<open>ONE\<close> and \<^verbatim>\<open>TWO\<close> enter integer expressions; below \<open>2^24\<close> every value
  involved is represented exactly, so those expressions are modelled over the rationals, with
  the conversion back to \<^verbatim>\<open>int\<close> truncating toward zero as C does.
\<close>

subsection \<open>Configuration constants and launch geometry\<close>

record config =
  SGIDS :: nat
  VARS :: nat
  TIMES :: nat
  MPSS :: nat
  MOSS :: nat
  NV :: nat
  OPS :: nat
  SGNVS :: nat
  SPLITX :: rat
  SPLITY :: rat

record launch =
  gridDim_x :: nat
  gridDim_y :: nat
  blockDim_x :: nat
  blockDim_y :: nat

type_synonym idx = "nat \<times> nat"

subsection \<open>Index mapping\<close>

definition getGlobalIdx_2D_2D :: "launch \<Rightarrow> idx \<Rightarrow> idx \<Rightarrow> nat" where
  "getGlobalIdx_2D_2D l blockIdx threadIdx =
     (let blockId = fst blockIdx + snd blockIdx * gridDim_x l;
          threadId = blockId * (blockDim_x l * blockDim_y l)
                     + (snd threadIdx * blockDim_x l) + fst threadIdx
      in threadId)"

definition get_sgid :: "config \<Rightarrow> launch \<Rightarrow> nat \<Rightarrow> nat \<Rightarrow> nat" where
  "get_sgid c l tidx tidy = tidy + (blockDim_y l + 2 * OPS c) * tidx"

text \<open>
  The return expression of \<^verbatim>\<open>get_gid\<close> has unsigned operands in every product and sum,
  so it is computed in the ring of integers modulo \<open>2^32\<close>: the value returned is the
  residue of the exact one, whether or not an intermediate result, \<open>M\<close> included, has
  wrapped.
\<close>

definition get_gid :: "config \<Rightarrow> launch \<Rightarrow> idx \<Rightarrow> idx \<Rightarrow> nat" where
  "get_gid c l blockIdx threadIdx =
     (let M = gridDim_y l * blockDim_y l + 2 * OPS c
      in (M * (OPS c + fst threadIdx) + OPS c + snd threadIdx
          + blockDim_y l * snd blockIdx + blockDim_x l * fst blockIdx * M) mod 2 ^ 32)"

text \<open>The threads of one block and the blocks of one grid, in linear-index order.\<close>

definition threads :: "launch \<Rightarrow> idx list" where
  "threads l = concat (map (\<lambda>ty. map (\<lambda>tx. (tx, ty)) [0..<blockDim_x l]) [0..<blockDim_y l])"

definition blocks :: "launch \<Rightarrow> idx list" where
  "blocks l = concat (map (\<lambda>by. map (\<lambda>bx. (bx, by)) [0..<gridDim_x l]) [0..<gridDim_y l])"

definition in_block :: "launch \<Rightarrow> idx \<Rightarrow> bool" where
  "in_block l threadIdx \<longleftrightarrow> fst threadIdx < blockDim_x l \<and> snd threadIdx < blockDim_y l"

definition in_grid :: "launch \<Rightarrow> idx \<Rightarrow> bool" where
  "in_grid l blockIdx \<longleftrightarrow> fst blockIdx < gridDim_x l \<and> snd blockIdx < gridDim_y l"

subsection \<open>Swept bounds\<close>

text \<open>
  The four bounds of the valid region, updated at the end of every loop iteration. The
  up-pyramid test is \<^verbatim>\<open>tidx<ux && tidx>=lx && tidy<uy && tidy>=ly\<close>, the down-pyramid
  test \<^verbatim>\<open>tidx<=ux && tidx>=lx && tidy<=uy && tidy>=ly\<close>.
\<close>

record bounds =
  lx :: int
  ly :: int
  ux :: int
  uy :: int

definition float_to_int :: "rat \<Rightarrow> int" where
  "float_to_int v = (if 0 \<le> v then \<lfloor>v\<rfloor> else \<lceil>v\<rceil>)"

definition up_bounds :: "config \<Rightarrow> launch \<Rightarrow> bounds" where
  "up_bounds c l =
     \<lparr> lx = int (OPS c), ly = int (OPS c),
       ux = int (blockDim_x l + OPS c), uy = int (blockDim_y l + OPS c) \<rparr>"

definition down_bounds :: "config \<Rightarrow> launch \<Rightarrow> bounds" where
  "down_bounds c l =
     \<lparr> lx = float_to_int (of_nat (blockDim_x l + OPS c) / 2 + 1 - of_nat (OPS c)),
       ly = float_to_int (of_nat (blockDim_y l + OPS c) / 2 + 1 - of_nat (OPS c)),
       ux = float_to_int (of_nat (blockDim_x l + OPS c) / 2 + of_nat (OPS c)),
       uy = float_to_int (of_nat (blockDim_y l + OPS c) / 2 + of_nat (OPS c)) \<rparr>"

definition up_update :: "config \<Rightarrow> bounds \<Rightarrow> bounds" where
  "up_update c b =
     \<lparr> lx = lx b + int (OPS c), ly = ly b + int (OPS c),
       ux = ux b - int (OPS c), uy = uy b - int (OPS c) \<rparr>"

definition down_update :: "config \<Rightarrow> bounds \<Rightarrow> bounds" where
  "down_update c b =
     \<lparr> lx = lx b - int (OPS c), ly = ly b - int (OPS c),
       ux = ux b + int (OPS c), uy = uy b + int (OPS c) \<rparr>"

definition up_valid :: "bounds \<Rightarrow> nat \<Rightarrow> nat \<Rightarrow> bool" where
  "up_valid b tidx tidy \<longleftrightarrow>
     int tidx < ux b \<and> int tidx \<ge> lx b \<and> int tidy < uy b \<and> int tidy \<ge> ly b"

definition down_valid :: "bounds \<Rightarrow> nat \<Rightarrow> nat \<Rightarrow> bool" where
  "down_valid b tidx tidy \<longleftrightarrow>
     int tidx \<le> ux b \<and> int tidx \<ge> lx b \<and> int tidy \<le> uy b \<and> int tidy \<ge> ly b"

text \<open>The bounds in force during local step \<open>k\<close>: \<open>k\<close> updates after the initial ones.\<close>

definition up_bounds_at :: "config \<Rightarrow> launch \<Rightarrow> nat \<Rightarrow> bounds" where
  "up_bounds_at c l k = (up_update c ^^ k) (up_bounds c l)"

definition down_bounds_at :: "config \<Rightarrow> launch \<Rightarrow> nat \<Rightarrow> bounds" where
  "down_bounds_at c l k = (down_update c ^^ k) (down_bounds c l)"

subsection \<open>The control flow of one thread\<close>

text \<open>
  No branch or loop bound of the kernels depends on the data: the path of a thread is fixed by
  the constants, the launch geometry and its indices. The events below list, in program order,
  what one thread executes: each \<^verbatim>\<open>__syncthreads()\<close> it reaches, the zeroing and edge
  copy loops it runs when its linear index is below \<^verbatim>\<open>blockDim.y+TWO*OPS\<close>, each
  interior copy \<^verbatim>\<open>shared_state[sgid+i*SGIDS] = state[gid+i*VARS+t*TIMES]\<close>, each call of
  \<^verbatim>\<open>step\<close>, and each write-back
  \<^verbatim>\<open>state[gid+j*VARS+t*TIMES] = shared_state[sgid+j*SGIDS]\<close> with the copy in the
  opposite direction that follows it.
\<close>

datatype event =
    Barrier
  | Zero_tile
  | Edge_copy nat
  | Seed nat nat
  | Step
  | Write_back nat nat
  | Reseed nat nat

definition tgid_of :: "launch \<Rightarrow> idx \<Rightarrow> idx \<Rightarrow> nat" where
  "tgid_of l blockIdx threadIdx =
     getGlobalIdx_2D_2D l blockIdx threadIdx mod (blockDim_x l * blockDim_y l)"

definition shared_state_zero_events :: "config \<Rightarrow> launch \<Rightarrow> idx \<Rightarrow> idx \<Rightarrow> event list" where
  "shared_state_zero_events c l blockIdx threadIdx =
     (if tgid_of l blockIdx threadIdx < blockDim_y l + 2 * OPS c then [Zero_tile] else [])
     @ [Barrier]"

definition edge_comm_events :: "config \<Rightarrow> launch \<Rightarrow> idx \<Rightarrow> idx \<Rightarrow> nat \<Rightarrow> event list" where
  "edge_comm_events c l blockIdx threadIdx curr_time =
     (if tgid_of l blockIdx threadIdx < blockDim_y l + 2 * OPS c then [Edge_copy curr_time] else [])
     @ [Barrier]"

definition seed_events :: "config \<Rightarrow> nat \<Rightarrow> event list" where
  "seed_events c t = map (\<lambda>i. Seed i t) [0..<NV c]"

definition write_back_events :: "config \<Rightarrow> nat \<Rightarrow> event list" where
  "write_back_events c t = concat (map (\<lambda>j. [Write_back j t, Reseed j t]) [0..<NV c])"

fun up_loop_events :: "config \<Rightarrow> nat \<Rightarrow> nat \<Rightarrow> nat list \<Rightarrow> bounds \<Rightarrow> event list" where
  "up_loop_events c tidx tidy [] b = []"
| "up_loop_events c tidx tidy (k # ks) b =
     (if up_valid b tidx tidy
      then [Step, Barrier] @ write_back_events c (k + 1) @ [Barrier]
      else [])
     @ up_loop_events c tidx tidy ks (up_update c b)"

fun down_loop_events :: "config \<Rightarrow> nat \<Rightarrow> nat \<Rightarrow> nat list \<Rightarrow> bounds \<Rightarrow> event list" where
  "down_loop_events c tidx tidy [] b = []"
| "down_loop_events c tidx tidy (k # ks) b =
     (if down_valid b tidx tidy
      then [Step, Barrier] @ write_back_events c (k + 1) @ [Barrier]
      else [])
     @ down_loop_events c tidx tidy ks (down_update c b)"

definition UpPyramid_events :: "config \<Rightarrow> launch \<Rightarrow> idx \<Rightarrow> idx \<Rightarrow> event list" where
  "UpPyramid_events c l blockIdx threadIdx =
     (let tidx = fst threadIdx + OPS c; tidy = snd threadIdx + OPS c
      in shared_state_zero_events c l blockIdx threadIdx
         @ edge_comm_events c l blockIdx threadIdx 0
         @ seed_events c 0 @ [Barrier]
         @ up_loop_events c tidx tidy [0..<MPSS c] (up_bounds c l))"

definition Octahedron_down_events :: "config \<Rightarrow> launch \<Rightarrow> idx \<Rightarrow> idx \<Rightarrow> event list" where
  "Octahedron_down_events c l blockIdx threadIdx =
     (let tidx = fst threadIdx + OPS c; tidy = snd threadIdx + OPS c
      in seed_events c 0 @ [Barrier]
         @ down_loop_events c tidx tidy [0..<MPSS c] (down_bounds c l))"

definition Octahedron_up_events :: "config \<Rightarrow> launch \<Rightarrow> idx \<Rightarrow> idx \<Rightarrow> event list" where
  "Octahedron_up_events c l blockIdx threadIdx =
     (let tidx = fst threadIdx + OPS c; tidy = snd threadIdx + OPS c
      in edge_comm_events c l blockIdx threadIdx (MPSS c)
         @ seed_events c (MPSS c) @ [Barrier]
         @ up_loop_events c tidx tidy [MPSS c..<2 * MPSS c - 1] (up_bounds c l))"

definition Octahedron_events :: "config \<Rightarrow> launch \<Rightarrow> idx \<Rightarrow> idx \<Rightarrow> event list" where
  "Octahedron_events c l blockIdx threadIdx =
     shared_state_zero_events c l blockIdx threadIdx
     @ Octahedron_down_events c l blockIdx threadIdx
     @ Octahedron_up_events c l blockIdx threadIdx"

definition DownPyramid_events :: "config \<Rightarrow> launch \<Rightarrow> idx \<Rightarrow> idx \<Rightarrow> event list" where
  "DownPyramid_events c l blockIdx threadIdx =
     (let tidx = fst threadIdx + OPS c; tidy = snd threadIdx + OPS c
      in shared_state_zero_events c l blockIdx threadIdx
         @ edge_comm_events c l blockIdx threadIdx (MPSS c)
         @ seed_events c 0 @ [Barrier]
         @ down_loop_events c tidx tidy [0..<MPSS c] (down_bounds c l))"

text \<open>Projections of an event list.\<close>

definition barriers :: "event list \<Rightarrow> nat" where
  "barriers es = length (filter (\<lambda>e. e = Barrier) es)"

fun edge_levels :: "event list \<Rightarrow> nat list" where
  "edge_levels [] = []"
| "edge_levels (Edge_copy t # es) = t # edge_levels es"
| "edge_levels (e # es) = edge_levels es"

fun seed_levels :: "event list \<Rightarrow> nat list" where
  "seed_levels [] = []"
| "seed_levels (Seed i t # es) = t # seed_levels es"
| "seed_levels (e # es) = seed_levels es"

fun write_levels :: "event list \<Rightarrow> nat list" where
  "write_levels [] = []"
| "write_levels (Write_back j t # es) = t # write_levels es"
| "write_levels (e # es) = write_levels es"

subsection \<open>The tile buffer and the global array\<close>

text \<open>
  The tile buffer \<^verbatim>\<open>shared_state\<close> and the global array \<^verbatim>\<open>state\<close> are flat arrays of
  \<^verbatim>\<open>float\<close>, modelled as functions from offsets to values of any type with a zero: the
  kernels only copy values, and \<^verbatim>\<open>step\<close>, which computes on them, is a parameter. An
  access is not range-checked in the source and is not in the model.

  A block is simulated phase by phase, a phase being the code between two barriers: the lanes
  that execute the phase run it one after the other, in linear-index order.
\<close>

record 'a memory =
  shared_state :: "nat \<Rightarrow> 'a"
  state :: "nat \<Rightarrow> 'a"

text \<open>
  The loop nest shared by the three copy loops of \<^verbatim>\<open>edge_comm\<close>: for every row \<open>i\<close>
  of the given range and every variable \<open>j\<close>,
  \<^verbatim>\<open>shared_state[tgid+i*(blockDim.y+TWO*OPS)+j*SGIDS] = state[gid+i*M+j*VARS+curr_time*TIMES]\<close>.
\<close>

definition edge_rows ::
  "config \<Rightarrow> launch \<Rightarrow> nat \<Rightarrow> nat \<Rightarrow> nat \<Rightarrow> (nat \<Rightarrow> 'a) \<Rightarrow> nat list \<Rightarrow> (nat \<Rightarrow> 'a) \<Rightarrow> (nat \<Rightarrow> 'a)" where
  "edge_rows c l tgid gid curr_time st rows sh =
     (let M = gridDim_y l * blockDim_y l + 2 * OPS c
      in fold (\<lambda>i. fold (\<lambda>j sh'. sh'(tgid + i * (blockDim_y l + 2 * OPS c) + j * SGIDS c
                                       := st (gid + i * M + j * VARS c + curr_time * TIMES c)))
                         [0..<NV c])
              rows sh)"

definition edge_comm_thread ::
  "config \<Rightarrow> launch \<Rightarrow> idx \<Rightarrow> (nat \<Rightarrow> 'a) \<Rightarrow> nat \<Rightarrow> idx \<Rightarrow> (nat \<Rightarrow> 'a) \<Rightarrow> (nat \<Rightarrow> 'a)" where
  "edge_comm_thread c l blockIdx st curr_time threadIdx sh =
     (let M = gridDim_y l * blockDim_y l + 2 * OPS c;
          tgid = tgid_of l blockIdx threadIdx;
          gid = (tgid + snd blockIdx * blockDim_y l + blockDim_x l * fst blockIdx * M) mod 2 ^ 32
      in if tgid < blockDim_y l + 2 * OPS c
         then
           let sh1 = edge_rows c l tgid gid curr_time st [0..<OPS c] sh;
               sh2 = edge_rows c l tgid gid curr_time st
                       [blockDim_x l + OPS c..<blockDim_x l + 2 * OPS c] sh1
           in if tgid < OPS c \<or> blockDim_x l + OPS c \<le> tgid
              then edge_rows c l tgid gid curr_time st [0..<blockDim_x l + 2 * OPS c] sh2
              else sh2
         else sh)"

definition edge_comm ::
  "config \<Rightarrow> launch \<Rightarrow> idx \<Rightarrow> (nat \<Rightarrow> 'a) \<Rightarrow> nat \<Rightarrow> (nat \<Rightarrow> 'a) \<Rightarrow> (nat \<Rightarrow> 'a)" where
  "edge_comm c l blockIdx st curr_time sh =
     fold (edge_comm_thread c l blockIdx st curr_time) (threads l) sh"

definition shared_state_zero_thread ::
  "config \<Rightarrow> launch \<Rightarrow> idx \<Rightarrow> idx \<Rightarrow> (nat \<Rightarrow> 'a::zero) \<Rightarrow> (nat \<Rightarrow> 'a)" where
  "shared_state_zero_thread c l blockIdx threadIdx sh =
     (let tgid = tgid_of l blockIdx threadIdx
      in if tgid < blockDim_y l + 2 * OPS c
         then fold (\<lambda>i. fold (\<lambda>j sh'. sh'(tgid + i * (blockDim_y l + 2 * OPS c) + j * SGIDS c := 0))
                            [0..<NV c])
                [0..<blockDim_x l + 2 * OPS c] sh
         else sh)"

definition shared_state_zero ::
  "config \<Rightarrow> launch \<Rightarrow> idx \<Rightarrow> (nat \<Rightarrow> 'a::zero) \<Rightarrow> (nat \<Rightarrow> 'a)" where
  "shared_state_zero c l blockIdx sh = fold (shared_state_zero_thread c l blockIdx) (threads l) sh"

text \<open>
  The interior copy \<^verbatim>\<open>shared_state[sgid+i*SGIDS] = state[gid+i*VARS+off]\<close> of one
  thread; \<open>off\<close> is \<open>0\<close> where the source has no time-level term and
  \<^verbatim>\<open>MPSS*TIMES\<close> in the up half of the octahedron.
\<close>

definition seed_thread ::
  "config \<Rightarrow> launch \<Rightarrow> idx \<Rightarrow> (nat \<Rightarrow> 'a) \<Rightarrow> nat \<Rightarrow> idx \<Rightarrow> (nat \<Rightarrow> 'a) \<Rightarrow> (nat \<Rightarrow> 'a)" where
  "seed_thread c l blockIdx st off threadIdx sh =
     (let sgid = get_sgid c l (fst threadIdx + OPS c) (snd threadIdx + OPS c);
          gid = get_gid c l blockIdx threadIdx
      in fold (\<lambda>i sh'. sh'(sgid + i * SGIDS c := st (gid + i * VARS c + off))) [0..<NV c] sh)"

definition seed ::
  "config \<Rightarrow> launch \<Rightarrow> idx \<Rightarrow> (nat \<Rightarrow> 'a) \<Rightarrow> nat \<Rightarrow> (nat \<Rightarrow> 'a) \<Rightarrow> (nat \<Rightarrow> 'a)" where
  "seed c l blockIdx st off sh = fold (seed_thread c l blockIdx st off) (threads l) sh"

text \<open>The write-back loop of one thread in iteration \<open>k\<close>, both assignments per variable.\<close>

definition write_back_thread ::
  "config \<Rightarrow> launch \<Rightarrow> idx \<Rightarrow> nat \<Rightarrow> idx \<Rightarrow> 'a memory \<Rightarrow> 'a memory" where
  "write_back_thread c l blockIdx k threadIdx m =
     (let sgid = get_sgid c l (fst threadIdx + OPS c) (snd threadIdx + OPS c);
          gid = get_gid c l blockIdx threadIdx
      in fold (\<lambda>j m'.
                 let m1 = m'\<lparr>state := (state m')(gid + j * VARS c + (k + 1) * TIMES c
                                          := shared_state m' (sgid + j * SGIDS c))\<rparr>
                 in m1\<lparr>shared_state := (shared_state m1)(sgid + j * SGIDS c
                                          := state m1 (gid + j * VARS c + (k + 1) * TIMES c))\<rparr>)
              [0..<NV c] m)"

definition step_thread ::
  "((nat \<Rightarrow> 'a) \<Rightarrow> nat \<Rightarrow> (nat \<Rightarrow> 'a)) \<Rightarrow> config \<Rightarrow> launch \<Rightarrow> idx \<Rightarrow> 'a memory \<Rightarrow> 'a memory" where
  "step_thread step c l threadIdx m =
     m\<lparr>shared_state :=
         step (shared_state m) (get_sgid c l (fst threadIdx + OPS c) (snd threadIdx + OPS c))\<rparr>"

text \<open>
  One iteration of a pyramid loop for the lanes \<open>ts\<close> that pass the region test: they call
  \<^verbatim>\<open>step\<close>, meet at the barrier, write back and re-seed, and meet at the second barrier.
\<close>

definition sweep_step ::
  "((nat \<Rightarrow> 'a) \<Rightarrow> nat \<Rightarrow> (nat \<Rightarrow> 'a)) \<Rightarrow> config \<Rightarrow> launch \<Rightarrow> idx \<Rightarrow> nat \<Rightarrow> idx list
     \<Rightarrow> 'a memory \<Rightarrow> 'a memory" where
  "sweep_step step c l blockIdx k ts m =
     fold (write_back_thread c l blockIdx k) ts (fold (step_thread step c l) ts m)"

fun up_loop ::
  "((nat \<Rightarrow> 'a) \<Rightarrow> nat \<Rightarrow> (nat \<Rightarrow> 'a)) \<Rightarrow> config \<Rightarrow> launch \<Rightarrow> idx \<Rightarrow> nat list \<Rightarrow> bounds
     \<Rightarrow> 'a memory \<Rightarrow> 'a memory" where
  "up_loop step c l blockIdx [] b m = m"
| "up_loop step c l blockIdx (k # ks) b m =
     up_loop step c l blockIdx ks (up_update c b)
       (sweep_step step c l blockIdx k
          (filter (\<lambda>t. up_valid b (fst t + OPS c) (snd t + OPS c)) (threads l)) m)"

fun down_loop ::
  "((nat \<Rightarrow> 'a) \<Rightarrow> nat \<Rightarrow> (nat \<Rightarrow> 'a)) \<Rightarrow> config \<Rightarrow> launch \<Rightarrow> idx \<Rightarrow> nat list \<Rightarrow> bounds
     \<Rightarrow> 'a memory \<Rightarrow> 'a memory" where
  "down_loop step c l blockIdx [] b m = m"
| "down_loop step c l blockIdx (k # ks) b m =
     down_loop step c l blockIdx ks (down_update c b)
       (sweep_step step c l blockIdx k
          (filter (\<lambda>t. down_valid b (fst t + OPS c) (snd t + OPS c)) (threads l)) m)"

text \<open>
  The two pyramid kernels, run by one block on its own tile buffer, whose content at entry is
  whatever the hardware left there. In both, every lane reaches the three barriers before the
  loop, so the tile with which the loop is entered is the same however the hardware resolves
  the barriers inside the region test.
\<close>

definition UpPyramid ::
  "((nat \<Rightarrow> 'a) \<Rightarrow> nat \<Rightarrow> (nat \<Rightarrow> 'a)) \<Rightarrow> config \<Rightarrow> launch \<Rightarrow> idx \<Rightarrow> 'a::zero memory \<Rightarrow> 'a memory" where
  "UpPyramid step c l blockIdx m =
     (let sh1 = shared_state_zero c l blockIdx (shared_state m);
          sh2 = edge_comm c l blockIdx (state m) 0 sh1;
          sh3 = seed c l blockIdx (state m) 0 sh2
      in up_loop step c l blockIdx [0..<MPSS c] (up_bounds c l) (m\<lparr>shared_state := sh3\<rparr>))"

definition DownPyramid ::
  "((nat \<Rightarrow> 'a) \<Rightarrow> nat \<Rightarrow> (nat \<Rightarrow> 'a)) \<Rightarrow> config \<Rightarrow> launch \<Rightarrow> idx \<Rightarrow> 'a::zero memory \<Rightarrow> 'a memory" where
  "DownPyramid step c l blockIdx m =
     (let sh1 = shared_state_zero c l blockIdx (shared_state m);
          sh2 = edge_comm c l blockIdx (state m) (MPSS c) sh1;
          sh3 = seed c l blockIdx (state m) 0 sh2
      in down_loop step c l blockIdx [0..<MPSS c] (down_bounds c l) (m\<lparr>shared_state := sh3\<rparr>))"

text \<open>
  A launch runs the kernel in every block of the grid; the blocks share the global array and
  nothing else. The tile buffer of each block starts from the content \<open>junk\<close>.
\<close>

definition launch_kernel ::
  "(idx \<Rightarrow> 'a memory \<Rightarrow> 'a memory) \<Rightarrow> launch \<Rightarrow> (nat \<Rightarrow> 'a) \<Rightarrow> (nat \<Rightarrow> 'a) \<Rightarrow> (nat \<Rightarrow> 'a)" where
  "launch_kernel body l junk st =
     fold (\<lambda>b st'. state (body b \<lparr>shared_state = junk, state = st'\<rparr>)) (blocks l) st"

text \<open>The identity update: \<^verbatim>\<open>step\<close> leaves every value of the tile as it is.\<close>

definition identity_step :: "(nat \<Rightarrow> 'a) \<Rightarrow> nat \<Rightarrow> (nat \<Rightarrow> 'a)" where
  "identity_step sh sgid = sh"

text \<open>
  The offsets of a cell: tile-local coordinates \<open>(x, y)\<close> and variable \<open>j\<close> in the tile
  buffer, and the same cell of the block's tile at time level \<open>t\<close> in the global array, whose
  rows have length \<open>M = gridDim.y * blockDim.y + 2 * OPS\<close>.
\<close>

definition tile_cell :: "config \<Rightarrow> launch \<Rightarrow> nat \<Rightarrow> nat \<Rightarrow> nat \<Rightarrow> nat" where
  "tile_cell c l x y j = get_sgid c l x y + j * SGIDS c"

definition global_cell :: "config \<Rightarrow> launch \<Rightarrow> idx \<Rightarrow> nat \<Rightarrow> nat \<Rightarrow> nat \<Rightarrow> nat \<Rightarrow> nat" where
  "global_cell c l blockIdx x y j t =
     (y + blockDim_y l * snd blockIdx)
     + (gridDim_y l * blockDim_y l + 2 * OPS c) * (x + blockDim_x l * fst blockIdx)
     + j * VARS c + t * TIMES c"

definition halo :: "config \<Rightarrow> launch \<Rightarrow> nat \<Rightarrow> nat \<Rightarrow> bool" where
  "halo c l x y \<longleftrightarrow>
     x < blockDim_x l + 2 * OPS c \<and> y < blockDim_y l + 2 * OPS c \<and>
     (x < OPS c \<or> blockDim_x l + OPS c \<le> x \<or> y < OPS c \<or> blockDim_y l + OPS c \<le> y)"

text \<open>
  The cells of the tile that the copy loops of \<^verbatim>\<open>edge_comm\<close> visit. Thread
  \<open>tgid\<close>, which exists below the block size and passes the test of line 79 below
  \<^verbatim>\<open>blockDim.y+TWO*OPS\<close>, copies column \<open>tgid\<close>: in the rows of the first two
  loops, and in every row when it passes the test \<^verbatim>\<open>tgid<OPS || blockDim.x+OPS<=tgid\<close>
  of the third.
\<close>

definition edge_copied :: "config \<Rightarrow> launch \<Rightarrow> nat \<Rightarrow> nat \<Rightarrow> bool" where
  "edge_copied c l x y \<longleftrightarrow>
     y < blockDim_x l * blockDim_y l \<and> y < blockDim_y l + 2 * OPS c \<and>
     x < blockDim_x l + 2 * OPS c \<and>
     (x < OPS c \<or> blockDim_x l + OPS c \<le> x \<or> y < OPS c \<or> blockDim_x l + OPS c \<le> y)"

subsection \<open>The instruction sequence of one thread of the octahedron\<close>

text \<open>
  In \<^verbatim>\<open>Octahedron\<close> a lane that fails the region test of the down loop skips the two
  barriers of that iteration and goes on towards the edge exchange of the up half while other
  lanes are still in the down loop, so the lanes of a block share no sequence of phases. The
  kernel is modelled by what one thread executes: the sequence of its accesses to the two
  arrays, with the offsets the source computes and the loops unrolled. No branch depends on
  the data, so the sequence is a function of the constants, the launch geometry and the
  indices.

  \<open>Clear a\<close> is \<^verbatim>\<open>shared_state[a] = 0\<close>, \<open>Load a g\<close> is
  \<^verbatim>\<open>shared_state[a] = state[g]\<close>, \<open>Store g a\<close> is
  \<^verbatim>\<open>state[g] = shared_state[a]\<close>, \<open>Call_step sgid\<close> is
  \<^verbatim>\<open>step(shared_state,sgid)\<close> and \<open>Sync\<close> is \<^verbatim>\<open>__syncthreads()\<close>.
\<close>

datatype instr =
    Sync
  | Clear nat
  | Load nat nat
  | Store nat nat
  | Call_step nat

fun exec_instr ::
  "((nat \<Rightarrow> 'a) \<Rightarrow> nat \<Rightarrow> (nat \<Rightarrow> 'a)) \<Rightarrow> instr \<Rightarrow> 'a::zero memory \<Rightarrow> 'a memory" where
  "exec_instr step Sync m = m"
| "exec_instr step (Clear a) m = m\<lparr>shared_state := (shared_state m)(a := 0)\<rparr>"
| "exec_instr step (Load a g) m = m\<lparr>shared_state := (shared_state m)(a := state m g)\<rparr>"
| "exec_instr step (Store g a) m = m\<lparr>state := (state m)(g := shared_state m a)\<rparr>"
| "exec_instr step (Call_step sgid) m = m\<lparr>shared_state := step (shared_state m) sgid\<rparr>"

definition shared_state_zero_code :: "config \<Rightarrow> launch \<Rightarrow> idx \<Rightarrow> idx \<Rightarrow> instr list" where
  "shared_state_zero_code c l blockIdx threadIdx =
     (let tgid = tgid_of l blockIdx threadIdx
      in (if tgid < blockDim_y l + 2 * OPS c
          then concat (map (\<lambda>i. map (\<lambda>j. Clear (tgid + i * (blockDim_y l + 2 * OPS c) + j * SGIDS c))
                                   [0..<NV c])
                         [0..<blockDim_x l + 2 * OPS c])
          else [])
         @ [Sync])"

definition edge_rows_code ::
  "config \<Rightarrow> launch \<Rightarrow> nat \<Rightarrow> nat \<Rightarrow> nat \<Rightarrow> nat list \<Rightarrow> instr list" where
  "edge_rows_code c l tgid gid curr_time rows =
     (let M = gridDim_y l * blockDim_y l + 2 * OPS c
      in concat (map (\<lambda>i. map (\<lambda>j. Load (tgid + i * (blockDim_y l + 2 * OPS c) + j * SGIDS c)
                                       (gid + i * M + j * VARS c + curr_time * TIMES c))
                               [0..<NV c])
                     rows))"

definition edge_comm_code :: "config \<Rightarrow> launch \<Rightarrow> idx \<Rightarrow> idx \<Rightarrow> nat \<Rightarrow> instr list" where
  "edge_comm_code c l blockIdx threadIdx curr_time =
     (let M = gridDim_y l * blockDim_y l + 2 * OPS c;
          tgid = tgid_of l blockIdx threadIdx;
          gid = (tgid + snd blockIdx * blockDim_y l + blockDim_x l * fst blockIdx * M) mod 2 ^ 32
      in (if tgid < blockDim_y l + 2 * OPS c
          then edge_rows_code c l tgid gid curr_time [0..<OPS c]
               @ edge_rows_code c l tgid gid curr_time
                   [blockDim_x l + OPS c..<blockDim_x l + 2 * OPS c]
               @ (if tgid < OPS c \<or> blockDim_x l + OPS c \<le> tgid
                  then edge_rows_code c l tgid gid curr_time [0..<blockDim_x l + 2 * OPS c]
                  else [])
          else [])
         @ [Sync])"

definition interior_copy_code :: "config \<Rightarrow> launch \<Rightarrow> idx \<Rightarrow> idx \<Rightarrow> nat \<Rightarrow> instr list" where
  "interior_copy_code c l blockIdx threadIdx off =
     (let sgid = get_sgid c l (fst threadIdx + OPS c) (snd threadIdx + OPS c);
          gid = get_gid c l blockIdx threadIdx
      in map (\<lambda>i. Load (sgid + i * SGIDS c) (gid + i * VARS c + off)) [0..<NV c])"

definition write_back_code :: "config \<Rightarrow> launch \<Rightarrow> idx \<Rightarrow> idx \<Rightarrow> nat \<Rightarrow> instr list" where
  "write_back_code c l blockIdx threadIdx k =
     (let sgid = get_sgid c l (fst threadIdx + OPS c) (snd threadIdx + OPS c);
          gid = get_gid c l blockIdx threadIdx
      in concat (map (\<lambda>j. [Store (gid + j * VARS c + (k + 1) * TIMES c) (sgid + j * SGIDS c),
                            Load (sgid + j * SGIDS c) (gid + j * VARS c + (k + 1) * TIMES c)])
                     [0..<NV c]))"

definition iteration_code :: "config \<Rightarrow> launch \<Rightarrow> idx \<Rightarrow> idx \<Rightarrow> nat \<Rightarrow> instr list" where
  "iteration_code c l blockIdx threadIdx k =
     [Call_step (get_sgid c l (fst threadIdx + OPS c) (snd threadIdx + OPS c)), Sync]
     @ write_back_code c l blockIdx threadIdx k @ [Sync]"

fun up_loop_code ::
  "config \<Rightarrow> launch \<Rightarrow> idx \<Rightarrow> idx \<Rightarrow> nat list \<Rightarrow> bounds \<Rightarrow> instr list" where
  "up_loop_code c l blockIdx threadIdx [] b = []"
| "up_loop_code c l blockIdx threadIdx (k # ks) b =
     (if up_valid b (fst threadIdx + OPS c) (snd threadIdx + OPS c)
      then iteration_code c l blockIdx threadIdx k
      else [])
     @ up_loop_code c l blockIdx threadIdx ks (up_update c b)"

fun down_loop_code ::
  "config \<Rightarrow> launch \<Rightarrow> idx \<Rightarrow> idx \<Rightarrow> nat list \<Rightarrow> bounds \<Rightarrow> instr list" where
  "down_loop_code c l blockIdx threadIdx [] b = []"
| "down_loop_code c l blockIdx threadIdx (k # ks) b =
     (if down_valid b (fst threadIdx + OPS c) (snd threadIdx + OPS c)
      then iteration_code c l blockIdx threadIdx k
      else [])
     @ down_loop_code c l blockIdx threadIdx ks (down_update c b)"

text \<open>
  The source marks the two halves of the kernel by comments. The down half is the interior
  copy without a time-level term, its barrier and the down loop; the up half is the edge
  exchange, the interior copy at \<^verbatim>\<open>MPSS*TIMES\<close>, its barrier and the up loop over
  \<^verbatim>\<open>k = MPSS, ..., TWO*MPSS-ONE-1\<close>.
\<close>

definition Octahedron_down_half :: "config \<Rightarrow> launch \<Rightarrow> idx \<Rightarrow> idx \<Rightarrow> instr list" where
  "Octahedron_down_half c l blockIdx threadIdx =
     interior_copy_code c l blockIdx threadIdx 0 @ [Sync]
     @ down_loop_code c l blockIdx threadIdx [0..<MPSS c] (down_bounds c l)"

definition Octahedron_up_half :: "config \<Rightarrow> launch \<Rightarrow> idx \<Rightarrow> idx \<Rightarrow> instr list" where
  "Octahedron_up_half c l blockIdx threadIdx =
     edge_comm_code c l blockIdx threadIdx (MPSS c)
     @ interior_copy_code c l blockIdx threadIdx (MPSS c * TIMES c) @ [Sync]
     @ up_loop_code c l blockIdx threadIdx [MPSS c..<2 * MPSS c - 1] (up_bounds c l)"

definition Octahedron :: "config \<Rightarrow> launch \<Rightarrow> idx \<Rightarrow> idx \<Rightarrow> instr list" where
  "Octahedron c l blockIdx threadIdx =
     shared_state_zero_code c l blockIdx threadIdx
     @ Octahedron_down_half c l blockIdx threadIdx
     @ Octahedron_up_half c l blockIdx threadIdx"



fun syncs :: "instr list \<Rightarrow> nat" where
  "syncs [] = 0"
| "syncs (Sync # p) = Suc (syncs p)"
| "syncs (i # p) = syncs p"

subsection \<open>Valid regions as sets of cells\<close>

definition up_cells :: "bounds \<Rightarrow> (int \<times> int) set" where
  "up_cells b = {lx b..<ux b} \<times> {ly b..<uy b}"

definition down_cells :: "bounds \<Rightarrow> (int \<times> int) set" where
  "down_cells b = {lx b..ux b} \<times> {ly b..uy b}"

text \<open>
  The rectangle is centred in the tile interior, whose tile-local coordinates run from
  \<open>OPS\<close> to \<open>blockDim + OPS - 1\<close> on each axis, when it leaves as many interior cells on one
  side as on the opposite side.
\<close>

definition centred :: "config \<Rightarrow> launch \<Rightarrow> bounds \<Rightarrow> bool" where
  "centred c l b \<longleftrightarrow>
     lx b - int (OPS c) = int (blockDim_x l + OPS c) - 1 - ux b \<and>
     ly b - int (OPS c) = int (blockDim_y l + OPS c) - 1 - uy b"

subsection \<open>Layout of the arrays and invariants of the round trip\<close>

text \<open>
  Modelled from the spec: the values of the stride constants \<open>SGIDS\<close>, \<open>VARS\<close> and
  \<open>TIMES\<close>, which the host sets and this file only reads. The spec lays the tile buffer
  out as one halo-padded plane per variable, concatenated with a fixed stride, and the global
  array row-major with variables and time levels as outer strides. A plane of the tile has
  \<open>(blockDim.x + 2 * OPS) * (blockDim.y + 2 * OPS)\<close> cells and a plane of the grid has
  \<open>(gridDim.x * blockDim.x + 2 * OPS) * (gridDim.y * blockDim.y + 2 * OPS)\<close> cells, so
  the strides keep the planes and the time levels apart when they are at least that large.
\<close>

definition well_strided :: "config \<Rightarrow> launch \<Rightarrow> bool" where
  "well_strided c l \<longleftrightarrow>
     (blockDim_y l + 2 * OPS c) * (blockDim_x l + 2 * OPS c) \<le> SGIDS c \<and>
     (gridDim_x l * blockDim_x l + 2 * OPS c) * (gridDim_y l * blockDim_y l + 2 * OPS c) \<le> VARS c \<and>
     VARS c * NV c \<le> TIMES c"

text \<open>
  \<open>own_global\<close> and \<open>own_tile\<close> are the offsets a thread uses for its own cell. The
  invariants relate the arrays during a launch to the global array \<open>base\<close> before it: the
  cells of time level 0 keep their value, the tile holds the level-0 value of every thread's
  cell, and, once the flag is set, the target cell holds the level-0 value of its thread's cell.
\<close>

definition own_global :: "config \<Rightarrow> launch \<Rightarrow> idx \<Rightarrow> idx \<Rightarrow> nat \<Rightarrow> nat \<Rightarrow> nat" where
  "own_global c l blockIdx threadIdx j lev =
     get_gid c l blockIdx threadIdx + j * VARS c + lev * TIMES c"

definition own_tile :: "config \<Rightarrow> launch \<Rightarrow> idx \<Rightarrow> nat \<Rightarrow> nat" where
  "own_tile c l threadIdx j =
     get_sgid c l (fst threadIdx + OPS c) (snd threadIdx + OPS c) + j * SGIDS c"


type_synonym target = "idx \<times> idx \<times> nat \<times> nat"

definition target_ok :: "config \<Rightarrow> launch \<Rightarrow> target \<Rightarrow> bool" where
  "target_ok c l tg \<longleftrightarrow>
     (case tg of (b, t, j, lev) \<Rightarrow> in_grid l b \<and> in_block l t \<and> j < NV c \<and> 0 < lev)"

definition level0_kept :: "config \<Rightarrow> launch \<Rightarrow> (nat \<Rightarrow> 'a) \<Rightarrow> (nat \<Rightarrow> 'a) \<Rightarrow> bool" where
  "level0_kept c l base G \<longleftrightarrow>
     (\<forall>b t j. in_grid l b \<longrightarrow> in_block l t \<longrightarrow> j < NV c \<longrightarrow>
        G (own_global c l b t j 0) = base (own_global c l b t j 0))"

definition target_done :: "config \<Rightarrow> launch \<Rightarrow> (nat \<Rightarrow> 'a) \<Rightarrow> target \<Rightarrow> (nat \<Rightarrow> 'a) \<Rightarrow> bool" where
  "target_done c l base tg G \<longleftrightarrow>
     (case tg of (b, t, j, lev) \<Rightarrow> G (own_global c l b t j lev) = base (own_global c l b t j 0))"

definition global_inv ::
  "config \<Rightarrow> launch \<Rightarrow> (nat \<Rightarrow> 'a) \<Rightarrow> target \<Rightarrow> bool \<Rightarrow> (nat \<Rightarrow> 'a) \<Rightarrow> bool" where
  "global_inv c l base tg q G \<longleftrightarrow> level0_kept c l base G \<and> (q \<longrightarrow> target_done c l base tg G)"

definition tile_inv :: "config \<Rightarrow> launch \<Rightarrow> idx \<Rightarrow> (nat \<Rightarrow> 'a) \<Rightarrow> (nat \<Rightarrow> 'a) \<Rightarrow> bool" where
  "tile_inv c l b base sh \<longleftrightarrow>
     (\<forall>t j. in_block l t \<longrightarrow> j < NV c \<longrightarrow> sh (own_tile c l t j) = base (own_global c l b t j 0))"

definition mem_inv ::
  "config \<Rightarrow> launch \<Rightarrow> idx \<Rightarrow> (nat \<Rightarrow> 'a) \<Rightarrow> target \<Rightarrow> bool \<Rightarrow> 'a memory \<Rightarrow> bool" where
  "mem_inv c l b base tg q m \<longleftrightarrow>
     tile_inv c l b base (shared_state m) \<and> global_inv c l base tg q (state m)"

subsection \<open>Example configurations\<close>

definition cfg :: "nat \<Rightarrow> nat \<Rightarrow> nat \<Rightarrow> nat \<Rightarrow> nat \<Rightarrow> nat \<Rightarrow> config" where
  "cfg r nv steps sg vs ts =
     \<lparr> SGIDS = sg, VARS = vs, TIMES = ts, MPSS = steps, MOSS = 2 * steps, NV = nv, OPS = r,
       SGNVS = sg * nv, SPLITX = 0, SPLITY = 0 \<rparr>"

definition geom :: "nat \<Rightarrow> nat \<Rightarrow> nat \<Rightarrow> nat \<Rightarrow> launch" where
  "geom gx gy bx by =
     \<lparr> gridDim_x = gx, gridDim_y = gy, blockDim_x = bx, blockDim_y = by \<rparr>"

section \<open>Injectivity of the index maps\<close>

lemma plane_index_inj:
  fixes W :: nat
  assumes "y < W" "y' < W" "y + W * x = y' + W * x'"
  shows "x = x' \<and> y = y'"
proof -
  have "(y + W * x) div W = x" "(y + W * x) mod W = y"
    using assms(1) by simp_all
  moreover have "(y' + W * x') div W = x'" "(y' + W * x') mod W = y'"
    using assms(2) by simp_all
  ultimately show ?thesis using assms(3) by metis
qed

lemma get_gid_plane:
  "get_gid c l (bx, by) (tx, ty) =
     ((OPS c + ty + blockDim_y l * by)
      + (gridDim_y l * blockDim_y l + 2 * OPS c) * (OPS c + tx + blockDim_x l * bx)) mod 2 ^ 32"
  by (simp add: get_gid_def Let_def algebra_simps)

lemma block_offset_lt:
  fixes n :: nat
  assumes "t < n" "b < g"
  shows "t + n * b < g * n"
proof -
  have "t + n * b < n * Suc b" using assms(1) by simp
  also have "\<dots> \<le> n * g" using assms(2) by (intro mult_le_mono2) simp
  finally show ?thesis by (simp add: mult.commute)
qed

lemma get_sgid_inj:
  assumes "tidy < blockDim_y l + 2 * OPS c" "tidy' < blockDim_y l + 2 * OPS c"
    and "get_sgid c l tidx tidy = get_sgid c l tidx' tidy'"
  shows "tidx = tidx' \<and> tidy = tidy'"
  using plane_index_inj [of tidy "blockDim_y l + 2 * OPS c" tidy' tidx tidx'] assms
  by (simp add: get_sgid_def)


text \<open>
  The exact offset of a thread of the grid lies below the number of cells of the halo-padded
  grid plane; when that number fits 32 bits the offset is returned as it is.
\<close>

lemma gid_exact_lt:
  assumes "bx < gridDim_x l" "by < gridDim_y l" "tx < blockDim_x l" "ty < blockDim_y l"
  shows "(OPS c + ty + blockDim_y l * by)
         + (gridDim_y l * blockDim_y l + 2 * OPS c) * (OPS c + tx + blockDim_x l * bx)
       < (gridDim_x l * blockDim_x l + 2 * OPS c) * (gridDim_y l * blockDim_y l + 2 * OPS c)"
proof -
  let ?M = "gridDim_y l * blockDim_y l + 2 * OPS c"
  let ?N = "gridDim_x l * blockDim_x l + 2 * OPS c"
  have Y: "OPS c + ty + blockDim_y l * by < ?M"
    using block_offset_lt [OF assms(4) assms(2)] by simp
  have X: "OPS c + tx + blockDim_x l * bx < ?N"
    using block_offset_lt [OF assms(3) assms(1)] by simp
  from block_offset_lt [OF Y X] show ?thesis .
qed

lemma get_gid_lt:
  assumes "in_grid l b" "in_block l t"
  shows "get_gid c l b t
       < (gridDim_x l * blockDim_x l + 2 * OPS c) * (gridDim_y l * blockDim_y l + 2 * OPS c)"
proof -
  obtain bx "by" where b: "b = (bx, by)" by (cases b)
  obtain tx ty where t: "t = (tx, ty)" by (cases t)
  from assms have rng: "bx < gridDim_x l" "by < gridDim_y l" "tx < blockDim_x l" "ty < blockDim_y l"
    by (simp_all add: in_grid_def in_block_def b t)
  have "get_gid c l (bx, by) (tx, ty)
      \<le> (OPS c + ty + blockDim_y l * by)
         + (gridDim_y l * blockDim_y l + 2 * OPS c) * (OPS c + tx + blockDim_x l * bx)"
    unfolding get_gid_plane by (rule mod_less_eq_dividend)
  also note gid_exact_lt [OF rng]
  finally show ?thesis by (simp add: b t)
qed

lemma get_gid_inj:
  assumes fit: "(gridDim_x l * blockDim_x l + 2 * OPS c) * (gridDim_y l * blockDim_y l + 2 * OPS c)
                  \<le> 2 ^ 32"
    and "in_grid l b" "in_grid l b'" "in_block l t" "in_block l t'"
    and "get_gid c l b t = get_gid c l b' t'"
  shows "b = b' \<and> t = t'"
proof -
  obtain bx "by" where b: "b = (bx, by)" by (cases b)
  obtain bx' by' where b': "b' = (bx', by')" by (cases b')
  obtain tx ty where t: "t = (tx, ty)" by (cases t)
  obtain tx' ty' where t': "t' = (tx', ty')" by (cases t')
  let ?M = "gridDim_y l * blockDim_y l + 2 * OPS c"
  let ?e = "(OPS c + ty + blockDim_y l * by) + ?M * (OPS c + tx + blockDim_x l * bx)"
  let ?e' = "(OPS c + ty' + blockDim_y l * by') + ?M * (OPS c + tx' + blockDim_x l * bx')"
  from assms have rng: "bx < gridDim_x l" "by < gridDim_y l" "tx < blockDim_x l" "ty < blockDim_y l"
    and rng': "bx' < gridDim_x l" "by' < gridDim_y l" "tx' < blockDim_x l" "ty' < blockDim_y l"
    by (simp_all add: in_grid_def in_block_def b b' t t')
  have Y: "OPS c + ty + blockDim_y l * by < ?M"
    using block_offset_lt [OF rng(4) rng(2)] by simp
  have Y': "OPS c + ty' + blockDim_y l * by' < ?M"
    using block_offset_lt [OF rng'(4) rng'(2)] by simp
  have small: "?e < 2 ^ 32" "?e' < 2 ^ 32"
    using gid_exact_lt [OF rng, of c] gid_exact_lt [OF rng', of c] fit by simp_all
  from assms(6) have "get_gid c l (bx, by) (tx, ty) = get_gid c l (bx', by') (tx', ty')"
    by (simp add: b b' t t')
  then have "?e mod 2 ^ 32 = ?e' mod 2 ^ 32"
    by (simp only: get_gid_plane)
  then have eq: "?e = ?e'" using small by simp
  from plane_index_inj [OF Y Y' eq]
  have X: "tx + blockDim_x l * bx = tx' + blockDim_x l * bx'"
    and Yeq: "ty + blockDim_y l * by = ty' + blockDim_y l * by'" by simp_all
  from plane_index_inj [OF rng(3) rng'(3) X] plane_index_inj [OF rng(4) rng'(4) Yeq]
  show ?thesis by (simp add: b b' t t')
qed

text \<open>
  Claim C9, as amended. The flat tile-buffer offset \<open>get_sgid\<close> is injective on the
  coordinates of one halo-padded tile plane (the column \<open>tidy\<close> below the padded height).
  The flat global offset \<open>get_gid\<close> is injective over all threads of all blocks of the
  grid when the halo-padded grid plane, of
  \<open>(gridDim.x * blockDim.x + 2 * OPS) * (gridDim.y * blockDim.y + 2 * OPS)\<close> cells, has at
  most \<open>2^32\<close> cells.
\<close>

theorem index_maps_injective:
  "(tidy < blockDim_y l + 2 * OPS c \<and> tidy' < blockDim_y l + 2 * OPS c \<and>
      get_sgid c l tidx tidy = get_sgid c l tidx' tidy'
    \<longrightarrow> tidx = tidx' \<and> tidy = tidy')
   \<and>
   ((gridDim_x l * blockDim_x l + 2 * OPS c) * (gridDim_y l * blockDim_y l + 2 * OPS c) \<le> 2 ^ 32 \<and>
      in_grid l b \<and> in_grid l b' \<and> in_block l t \<and> in_block l t' \<and>
      get_gid c l b t = get_gid c l b' t'
    \<longrightarrow> b = b' \<and> t = t')"
  using get_sgid_inj [of tidy l c tidy' tidx tidx'] get_gid_inj [of l c b b' t t']
  by blast

theorem index_maps_injective_witness:
  "2 < blockDim_y (geom 2 2 4 4) + 2 * OPS (cfg 1 1 2 36 64 64)
   \<and> 5 < blockDim_y (geom 2 2 4 4) + 2 * OPS (cfg 1 1 2 36 64 64)
   \<and> get_sgid (cfg 1 1 2 36 64 64) (geom 2 2 4 4) 1 5 \<noteq> get_sgid (cfg 1 1 2 36 64 64) (geom 2 2 4 4) 2 2
   \<and> (gridDim_x (geom 2 2 4 4) * blockDim_x (geom 2 2 4 4) + 2 * OPS (cfg 1 1 2 36 64 64))
        * (gridDim_y (geom 2 2 4 4) * blockDim_y (geom 2 2 4 4) + 2 * OPS (cfg 1 1 2 36 64 64)) \<le> 2 ^ 32
   \<and> in_grid (geom 2 2 4 4) (0, 1) \<and> in_grid (geom 2 2 4 4) (1, 0)
   \<and> in_block (geom 2 2 4 4) (3, 0) \<and> in_block (geom 2 2 4 4) (0, 3)
   \<and> get_gid (cfg 1 1 2 36 64 64) (geom 2 2 4 4) (0, 1) (3, 0)
       \<noteq> get_gid (cfg 1 1 2 36 64 64) (geom 2 2 4 4) (1, 0) (0, 3)"
proof -
  have r: "2 < blockDim_y (geom 2 2 4 4) + 2 * OPS (cfg 1 1 2 36 64 64)"
    "5 < blockDim_y (geom 2 2 4 4) + 2 * OPS (cfg 1 1 2 36 64 64)"
    "(gridDim_x (geom 2 2 4 4) * blockDim_x (geom 2 2 4 4) + 2 * OPS (cfg 1 1 2 36 64 64))
        * (gridDim_y (geom 2 2 4 4) * blockDim_y (geom 2 2 4 4) + 2 * OPS (cfg 1 1 2 36 64 64)) \<le> 2 ^ 32"
    "in_grid (geom 2 2 4 4) (0, 1)" "in_grid (geom 2 2 4 4) (1, 0)"
    "in_block (geom 2 2 4 4) (3, 0)" "in_block (geom 2 2 4 4) (0, 3)"
    by (simp_all add: cfg_def geom_def in_grid_def in_block_def)
  have d: "(1::nat) \<noteq> 2" "((0::nat), (1::nat)) \<noteq> (1, 0)" by simp_all
  show ?thesis
    using r d
      index_maps_injective [where c = "cfg 1 1 2 36 64 64" and l = "geom 2 2 4 4"
        and tidx = 1 and tidy = 5 and tidx' = 2 and tidy' = 2
        and b = "(0, 1)" and b' = "(1, 0)" and t = "(3, 0)" and t' = "(0, 3)"]
    by blast
qed

text \<open>
  The claim as stated fails on a grid whose plane has more than \<open>2^32\<close> cells: the offset
  is computed in 32-bit unsigned arithmetic and wraps. On a 4096 by 4096 grid of 32 by 32
  blocks with radius 1, thread \<open>(3, 7)\<close> of block \<open>(1024, 5)\<close> and thread \<open>(3, 7)\<close> of
  block \<open>(0, 2053)\<close> get the same offset, 590000.
\<close>

theorem index_maps_injective_counterexample:
  "in_grid (geom 4096 4096 32 32) (1024, 5) \<and> in_grid (geom 4096 4096 32 32) (0, 2053)
   \<and> in_block (geom 4096 4096 32 32) (3, 7)
   \<and> ((1024::nat), (5::nat)) \<noteq> (0, 2053)
   \<and> get_gid (cfg 1 1 2 1156 64 64) (geom 4096 4096 32 32) (1024, 5) (3, 7) = 590000
   \<and> get_gid (cfg 1 1 2 1156 64 64) (geom 4096 4096 32 32) (0, 2053) (3, 7) = 590000"
  by (simp add: get_gid_def in_grid_def in_block_def cfg_def geom_def)

section \<open>Swept bounds and valid regions\<close>

lemma float_to_int_half:
  "float_to_int (of_int n / 2) = (if 0 \<le> n then n div 2 else - ((- n) div 2))"
proof (cases "0 \<le> n")
  case True
  then have "(0::rat) \<le> of_int n / 2" by simp
  then show ?thesis using True by (simp add: float_to_int_def floor_divide_of_int_eq [of n 2, where ?'a = rat, simplified])
next
  case False
  then have neg: "\<not> (0::rat) \<le> of_int n / 2" by simp
  have "\<lceil>(of_int n / 2 :: rat)\<rceil> = - \<lfloor>(of_int (- n) / 2 :: rat)\<rfloor>"
    by (simp add: ceiling_def)
  also have "\<dots> = - ((- n) div 2)"
    using floor_divide_of_int_eq [of "- n" 2, where ?'a = rat] by simp
  finally show ?thesis using False neg by (simp add: float_to_int_def)
qed

lemma down_bounds_int:
  "lx (down_bounds c l) = (let n = int (blockDim_x l) + 2 - int (OPS c) in if 0 \<le> n then n div 2 else - ((- n) div 2))"
  "ux (down_bounds c l) = (int (blockDim_x l) + 3 * int (OPS c)) div 2"
  "ly (down_bounds c l) = (let n = int (blockDim_y l) + 2 - int (OPS c) in if 0 \<le> n then n div 2 else - ((- n) div 2))"
  "uy (down_bounds c l) = (int (blockDim_y l) + 3 * int (OPS c)) div 2"
proof -
  have a: "\<And>b r. (of_nat (b + r) / 2 + 1 - of_nat r :: rat) = of_int (int b + 2 - int r) / 2"
    by (simp add: field_simps)
  have b: "\<And>b r. (of_nat (b + r) / 2 + of_nat r :: rat) = of_int (int b + 3 * int r) / 2"
    by (simp add: field_simps)
  show "lx (down_bounds c l) = (let n = int (blockDim_x l) + 2 - int (OPS c) in if 0 \<le> n then n div 2 else - ((- n) div 2))"
    unfolding down_bounds_def Let_def by (simp only: bounds.simps a float_to_int_half)
  show "ly (down_bounds c l) = (let n = int (blockDim_y l) + 2 - int (OPS c) in if 0 \<le> n then n div 2 else - ((- n) div 2))"
    unfolding down_bounds_def Let_def by (simp only: bounds.simps a float_to_int_half)
  show "ux (down_bounds c l) = (int (blockDim_x l) + 3 * int (OPS c)) div 2"
    unfolding down_bounds_def by (simp only: bounds.simps b float_to_int_half) simp
  show "uy (down_bounds c l) = (int (blockDim_y l) + 3 * int (OPS c)) div 2"
    unfolding down_bounds_def by (simp only: bounds.simps b float_to_int_half) simp
qed

lemma up_update_funpow:
  "(up_update c ^^ k) b =
     \<lparr> lx = lx b + int k * int (OPS c), ly = ly b + int k * int (OPS c),
       ux = ux b - int k * int (OPS c), uy = uy b - int k * int (OPS c) \<rparr>"
  by (induction k) (simp_all add: up_update_def algebra_simps)

lemma down_update_funpow:
  "(down_update c ^^ k) b =
     \<lparr> lx = lx b - int k * int (OPS c), ly = ly b - int k * int (OPS c),
       ux = ux b + int k * int (OPS c), uy = uy b + int k * int (OPS c) \<rparr>"
  by (induction k) (simp_all add: down_update_def algebra_simps)

lemma up_valid_cells: "up_valid b x y \<longleftrightarrow> (int x, int y) \<in> up_cells b"
  by (auto simp: up_valid_def up_cells_def)

lemma down_valid_cells: "down_valid b x y \<longleftrightarrow> (int x, int y) \<in> down_cells b"
  by (auto simp: down_valid_def down_cells_def)

lemma card_up_cells: "card (up_cells b) = nat (ux b - lx b) * nat (uy b - ly b)"
  by (simp add: up_cells_def card_cartesian_product)

lemma card_down_cells: "card (down_cells b) = nat (ux b - lx b + 1) * nat (uy b - ly b + 1)"
  by (simp add: down_cells_def card_cartesian_product)

lemma up_cells_nonempty: "up_cells b \<noteq> {} \<longleftrightarrow> lx b < ux b \<and> ly b < uy b"
  by (auto simp: up_cells_def)

lemma nat_mult_less:
  fixes w h w' h' :: int
  assumes "0 < w" "0 < h" "w' < w" "h' < h"
  shows "nat w' * nat h' < nat w * nat h"
proof -
  have "nat w' < nat w" "nat h' < nat h" using assms by simp_all
  then show ?thesis by (intro mult_strict_mono) simp_all
qed

lemma up_area_decreases:
  assumes "0 < OPS c" "up_cells (up_bounds_at c l k) \<noteq> {}"
  shows "card (up_cells (up_bounds_at c l (Suc k))) < card (up_cells (up_bounds_at c l k))"
proof -
  let ?b = "up_bounds_at c l k"
  have ne: "lx ?b < ux ?b" "ly ?b < uy ?b"
    using assms(2) by (simp_all add: up_cells_nonempty)
  have nxt: "up_bounds_at c l (Suc k) = up_update c ?b"
    by (simp add: up_bounds_at_def)
  have R: "0 < int (OPS c)" using assms(1) by simp
  show ?thesis
    unfolding card_up_cells nxt
    by (rule nat_mult_less) (use ne R in \<open>simp_all add: up_update_def\<close>)
qed

lemma down_bounds_ordered:
  assumes "0 < OPS c"
  shows "lx (down_bounds c l) \<le> ux (down_bounds c l)" "ly (down_bounds c l) \<le> uy (down_bounds c l)"
  using assms by (simp_all add: down_bounds_int Let_def) linarith+

lemma down_area_increases:
  assumes "0 < OPS c"
  shows "card (down_cells (down_bounds_at c l k)) < card (down_cells (down_bounds_at c l (Suc k)))"
proof -
  let ?b = "down_bounds_at c l k"
  have "lx ?b \<le> ux ?b \<and> ly ?b \<le> uy ?b"
  proof (induction k)
    case 0
    show ?case using down_bounds_ordered [OF assms, of l] by (simp add: down_bounds_at_def)
  next
    case (Suc k)
    then show ?case by (simp add: down_bounds_at_def down_update_def)
  qed
  then have o: "lx ?b \<le> ux ?b" "ly ?b \<le> uy ?b" by simp_all
  have nxt: "down_bounds_at c l (Suc k) = down_update c ?b"
    by (simp add: down_bounds_at_def)
  have R: "0 < int (OPS c)" using assms(1) by simp
  show ?thesis
    unfolding card_down_cells nxt
    by (rule nat_mult_less) (use o R in \<open>simp_all add: down_update_def\<close>)
qed

text \<open>
  Claim C2, as amended. During local step \<open>k\<close> the bounds of the up pyramid are the initial
  bounds moved inward by \<open>k * OPS\<close> on every side, and those of the down pyramid are the
  initial bounds moved outward by \<open>k * OPS\<close> on every side. With a radius of at least one,
  the number of cells of the up region strictly decreases from a step to the next as long as
  the region is not empty, and the number of cells of the down region strictly increases.
\<close>

theorem region_nesting:
  "up_bounds_at c l k =
     \<lparr> lx = lx (up_bounds c l) + int k * int (OPS c), ly = ly (up_bounds c l) + int k * int (OPS c),
       ux = ux (up_bounds c l) - int k * int (OPS c), uy = uy (up_bounds c l) - int k * int (OPS c) \<rparr>
   \<and> down_bounds_at c l k =
     \<lparr> lx = lx (down_bounds c l) - int k * int (OPS c), ly = ly (down_bounds c l) - int k * int (OPS c),
       ux = ux (down_bounds c l) + int k * int (OPS c), uy = uy (down_bounds c l) + int k * int (OPS c) \<rparr>
   \<and> (0 < OPS c \<and> up_cells (up_bounds_at c l k) \<noteq> {} \<longrightarrow>
        card (up_cells (up_bounds_at c l (Suc k))) < card (up_cells (up_bounds_at c l k)))
   \<and> (0 < OPS c \<longrightarrow>
        card (down_cells (down_bounds_at c l k)) < card (down_cells (down_bounds_at c l (Suc k))))"
  using up_area_decreases [of c l k] down_area_increases [of c l k]
  by (simp add: up_bounds_at_def down_bounds_at_def up_update_funpow down_update_funpow)

theorem region_nesting_witness:
  "0 < OPS (cfg 1 1 2 36 64 64)
   \<and> up_cells (up_bounds_at (cfg 1 1 2 36 64 64) (geom 1 1 4 4) 0) \<noteq> {}
   \<and> card (up_cells (up_bounds_at (cfg 1 1 2 36 64 64) (geom 1 1 4 4) (Suc 0)))
       < card (up_cells (up_bounds_at (cfg 1 1 2 36 64 64) (geom 1 1 4 4) 0))
   \<and> card (down_cells (down_bounds_at (cfg 1 1 2 36 64 64) (geom 1 1 4 4) 0))
       < card (down_cells (down_bounds_at (cfg 1 1 2 36 64 64) (geom 1 1 4 4) (Suc 0)))"
proof -
  have h: "0 < OPS (cfg 1 1 2 36 64 64)" by (simp add: cfg_def)
  have ne: "up_cells (up_bounds_at (cfg 1 1 2 36 64 64) (geom 1 1 4 4) 0) \<noteq> {}"
    by (simp add: up_cells_nonempty up_bounds_at_def up_bounds_def cfg_def geom_def)
  show ?thesis
    using region_nesting [of "cfg 1 1 2 36 64 64" "geom 1 1 4 4" 0] h ne by blast
qed

text \<open>
  The claim as stated fails once the up region is empty: on a 4 by 4 tile with radius 1
  the regions of steps 2 and 3 both have no cell.
\<close>

theorem up_area_counterexample:
  "\<not> card (up_cells (up_bounds_at (cfg 1 1 4 36 64 64) (geom 1 1 4 4) 3))
       < card (up_cells (up_bounds_at (cfg 1 1 4 36 64 64) (geom 1 1 4 4) 2))"
  by (simp add: card_up_cells up_bounds_at_def up_update_funpow up_bounds_def cfg_def geom_def)

lemma down_bounds_split:
  "down_bounds (c\<lparr>SPLITX := sx, SPLITY := sy\<rparr>) l = down_bounds c l"
  by (simp add: down_bounds_def)

lemma half_shift:
  fixes n r :: int
  shows "(n + 4 * r) div 2 = n div 2 + 2 * r"
proof -
  have "n + 4 * r = n + 2 * r * 2" by simp
  then show ?thesis by (simp only: div_mult_self1 [of 2 n "2 * r"])
qed

lemma down_side_x:
  assumes "OPS c \<le> blockDim_x l + 2"
  shows "ux (down_bounds c l) - lx (down_bounds c l) + 1 = 2 * int (OPS c)"
proof -
  have "int (blockDim_x l) + 3 * int (OPS c)
      = (int (blockDim_x l) + 2 - int (OPS c) - 2) + 4 * int (OPS c)"
    by simp
  then have "(int (blockDim_x l) + 3 * int (OPS c)) div 2
      = (int (blockDim_x l) + 2 - int (OPS c) - 2) div 2 + 2 * int (OPS c)"
    by (simp only: half_shift)
  moreover have "(int (blockDim_x l) + 2 - int (OPS c) - 2) div 2
      = (int (blockDim_x l) + 2 - int (OPS c)) div 2 - 1"
    by simp
  moreover have "0 \<le> int (blockDim_x l) + 2 - int (OPS c)" using assms by simp
  ultimately show ?thesis by (simp add: down_bounds_int Let_def)
qed

lemma down_side_y:
  assumes "OPS c \<le> blockDim_y l + 2"
  shows "uy (down_bounds c l) - ly (down_bounds c l) + 1 = 2 * int (OPS c)"
proof -
  have "int (blockDim_y l) + 3 * int (OPS c)
      = (int (blockDim_y l) + 2 - int (OPS c) - 2) + 4 * int (OPS c)"
    by simp
  then have "(int (blockDim_y l) + 3 * int (OPS c)) div 2
      = (int (blockDim_y l) + 2 - int (OPS c) - 2) div 2 + 2 * int (OPS c)"
    by (simp only: half_shift)
  moreover have "(int (blockDim_y l) + 2 - int (OPS c) - 2) div 2
      = (int (blockDim_y l) + 2 - int (OPS c)) div 2 - 1"
    by simp
  moreover have "0 \<le> int (blockDim_y l) + 2 - int (OPS c)" using assms by simp
  ultimately show ?thesis by (simp add: down_bounds_int Let_def)
qed

lemma down_centred:
  assumes "OPS c = 1 \<or> OPS c = 2" "even (blockDim_x l)" "even (blockDim_y l)"
  shows "centred c l (down_bounds c l)"
proof -
  obtain p where p: "blockDim_x l = 2 * p" using assms(2) by (auto elim: evenE)
  obtain q where q: "blockDim_y l = 2 * q" using assms(3) by (auto elim: evenE)
  have d: "\<And>n::int. (2 * n + 1) div 2 = n" "\<And>n::int. (2 * n + 3) div 2 = n + 1"
    "\<And>n::int. (2 * n) div 2 = n" "\<And>n::int. (2 * n + 6) div 2 = n + 3"
    by simp_all
  from assms(1) show ?thesis
  proof
    assume r: "OPS c = 1"
    have "lx (down_bounds c l) = int p" "ux (down_bounds c l) = int p + 1"
      "ly (down_bounds c l) = int q" "uy (down_bounds c l) = int q + 1"
      by (simp_all add: down_bounds_int Let_def p q r d)
    then show ?thesis by (simp add: centred_def p q r)
  next
    assume r: "OPS c = 2"
    have "lx (down_bounds c l) = int p" "ux (down_bounds c l) = int p + 3"
      "ly (down_bounds c l) = int q" "uy (down_bounds c l) = int q + 3"
      by (simp_all add: down_bounds_int Let_def p q r d)
    then show ?thesis by (simp add: centred_def p q r)
  qed
qed

text \<open>
  Claim C8, as amended. The initial bounds of the down half are computed from the tile
  dimensions and the radius alone: the constants \<open>SPLITX\<close> and \<open>SPLITY\<close> are not read.
  When the radius is at most the tile side plus two, the rectangle has \<open>2 * OPS\<close> cells
  along that side; it is centred in the tile interior when the radius is 1 or 2 and both tile
  sides are even.
\<close>

theorem down_bounds_initial:
  "down_bounds (c\<lparr>SPLITX := sx, SPLITY := sy\<rparr>) l = down_bounds c l
   \<and> (OPS c \<le> blockDim_x l + 2 \<longrightarrow> ux (down_bounds c l) - lx (down_bounds c l) + 1 = 2 * int (OPS c))
   \<and> (OPS c \<le> blockDim_y l + 2 \<longrightarrow> uy (down_bounds c l) - ly (down_bounds c l) + 1 = 2 * int (OPS c))
   \<and> ((OPS c = 1 \<or> OPS c = 2) \<and> even (blockDim_x l) \<and> even (blockDim_y l)
        \<longrightarrow> centred c l (down_bounds c l))"
  using down_side_x [of c l] down_side_y [of c l] down_centred [of c l] down_bounds_split [where c = c and sx = sx and sy = sy and l = l]
  by blast

theorem down_bounds_initial_witness:
  "OPS (cfg 2 1 2 144 400 800) \<le> blockDim_x (geom 1 1 8 8) + 2
   \<and> OPS (cfg 2 1 2 144 400 800) \<le> blockDim_y (geom 1 1 8 8) + 2
   \<and> (OPS (cfg 2 1 2 144 400 800) = 1 \<or> OPS (cfg 2 1 2 144 400 800) = 2)
   \<and> even (blockDim_x (geom 1 1 8 8)) \<and> even (blockDim_y (geom 1 1 8 8))
   \<and> ux (down_bounds (cfg 2 1 2 144 400 800) (geom 1 1 8 8))
       - lx (down_bounds (cfg 2 1 2 144 400 800) (geom 1 1 8 8)) + 1
       = 2 * int (OPS (cfg 2 1 2 144 400 800))
   \<and> centred (cfg 2 1 2 144 400 800) (geom 1 1 8 8)
       (down_bounds (cfg 2 1 2 144 400 800) (geom 1 1 8 8))"
proof -
  have h: "OPS (cfg 2 1 2 144 400 800) \<le> blockDim_x (geom 1 1 8 8) + 2"
    "OPS (cfg 2 1 2 144 400 800) \<le> blockDim_y (geom 1 1 8 8) + 2"
    "OPS (cfg 2 1 2 144 400 800) = 1 \<or> OPS (cfg 2 1 2 144 400 800) = 2"
    "even (blockDim_x (geom 1 1 8 8))" "even (blockDim_y (geom 1 1 8 8))"
    by (simp_all add: cfg_def geom_def)
  show ?thesis
    using h down_bounds_initial [where c = "cfg 2 1 2 144 400 800" and sx = 0 and sy = 0
        and l = "geom 1 1 8 8"]
    by blast
qed

text \<open>
  The claim as stated fails for radius 3 on an 8 by 8 tile: the bounds are 3 and 8 on both
  axes, in an interior that runs from 3 to 10.
\<close>

theorem down_bounds_centred_counterexample:
  "\<not> centred (cfg 3 1 1 196 400 800) (geom 1 1 8 8)
       (down_bounds (cfg 3 1 1 196 400 800) (geom 1 1 8 8))"
  by (simp add: centred_def down_bounds_int Let_def cfg_def geom_def)

section \<open>Control flow: barriers, seeds and write-backs\<close>

text \<open>
  Claim C1. The claim asks that all threads of a block reach every barrier equally often. In
  the kernels the two barriers of a loop iteration stand inside the region test, so a thread
  outside the region skips both, while \<^verbatim>\<open>edge_comm\<close> and \<^verbatim>\<open>shared_state_zero\<close>
  place their barrier after the thread-subset test. On a 4 by 4 tile with radius 1 and two
  steps, thread \<open>(0, 0)\<close> and thread \<open>(1, 1)\<close> of the same block reach different numbers
  of barriers in each of the three kernels.
\<close>

theorem barrier_counts_differ:
  "barriers (UpPyramid_events (cfg 1 1 2 36 64 192) (geom 1 1 4 4) (0, 0) (0, 0)) = 5
   \<and> barriers (UpPyramid_events (cfg 1 1 2 36 64 192) (geom 1 1 4 4) (0, 0) (1, 1)) = 7
   \<and> barriers (Octahedron_events (cfg 1 1 2 36 64 192) (geom 1 1 4 4) (0, 0) (0, 0)) = 8
   \<and> barriers (Octahedron_events (cfg 1 1 2 36 64 192) (geom 1 1 4 4) (0, 0) (1, 1)) = 10
   \<and> barriers (DownPyramid_events (cfg 1 1 2 36 64 192) (geom 1 1 4 4) (0, 0) (0, 0)) = 5
   \<and> barriers (DownPyramid_events (cfg 1 1 2 36 64 192) (geom 1 1 4 4) (0, 0) (1, 1)) = 7"
  by code_simp

text \<open>
  In general a thread reaches three barriers before the loop of a pyramid kernel and two more
  for every step at which it lies inside the region, so two threads of a block reach the same
  number of barriers only if they lie inside the region equally often.
\<close>

lemma barriers_append: "barriers (xs @ ys) = barriers xs + barriers ys"
  by (simp add: barriers_def)

lemma barriers_simps:
  "barriers [] = 0"
  "barriers (e # es) = (if e = Barrier then 1 else 0) + barriers es"
  by (simp_all add: barriers_def)

lemma barriers_seed_events: "barriers (seed_events c t) = 0"
  by (simp add: barriers_def seed_events_def filter_empty_conv)

lemma barriers_write_back_events: "barriers (write_back_events c t) = 0"
  by (auto simp: barriers_def write_back_events_def filter_empty_conv)

lemma barriers_call_events:
  "barriers (shared_state_zero_events c l b t) = 1"
  "barriers (edge_comm_events c l b t lv) = 1"
  by (simp_all add: barriers_def shared_state_zero_events_def edge_comm_events_def)

lemma steps_inside_Suc:
  "length (filter P [0..<Suc n]) = (if P 0 then 1 else 0) + length (filter (\<lambda>i. P (Suc i)) [0..<n])"
proof -
  have "[0..<Suc n] = 0 # map Suc [0..<n]"
    by (simp add: upt_conv_Cons map_Suc_upt del: upt_Suc)
  then show ?thesis by (simp add: filter_map o_def del: upt_Suc)
qed

lemma barriers_up_loop:
  "barriers (up_loop_events c x y ks b)
     = 2 * length (filter (\<lambda>i. up_valid ((up_update c ^^ i) b) x y) [0..<length ks])"
proof (induction ks arbitrary: b)
  case Nil
  show ?case by (simp add: barriers_simps)
next
  case (Cons k ks)
  have "barriers (up_loop_events c x y (k # ks) b)
      = (if up_valid b x y then 2 else 0) + barriers (up_loop_events c x y ks (up_update c b))"
    by (simp add: barriers_append barriers_write_back_events barriers_simps)
  also have "\<dots> = (if up_valid b x y then 2 else 0)
      + 2 * length (filter (\<lambda>i. up_valid ((up_update c ^^ i) (up_update c b)) x y) [0..<length ks])"
    by (simp only: Cons.IH)
  also have "\<dots> = 2 * length (filter (\<lambda>i. up_valid ((up_update c ^^ i) b) x y) [0..<length (k # ks)])"
    by (simp add: steps_inside_Suc funpow_swap1 del: upt_Suc)
  finally show ?case .
qed

lemma barriers_down_loop:
  "barriers (down_loop_events c x y ks b)
     = 2 * length (filter (\<lambda>i. down_valid ((down_update c ^^ i) b) x y) [0..<length ks])"
proof (induction ks arbitrary: b)
  case Nil
  show ?case by (simp add: barriers_simps)
next
  case (Cons k ks)
  have "barriers (down_loop_events c x y (k # ks) b)
      = (if down_valid b x y then 2 else 0) + barriers (down_loop_events c x y ks (down_update c b))"
    by (simp add: barriers_append barriers_write_back_events barriers_simps)
  also have "\<dots> = (if down_valid b x y then 2 else 0)
      + 2 * length (filter (\<lambda>i. down_valid ((down_update c ^^ i) (down_update c b)) x y) [0..<length ks])"
    by (simp only: Cons.IH)
  also have "\<dots> = 2 * length (filter (\<lambda>i. down_valid ((down_update c ^^ i) b) x y) [0..<length (k # ks)])"
    by (simp add: steps_inside_Suc funpow_swap1 del: upt_Suc)
  finally show ?case .
qed

lemma barriers_UpPyramid:
  "barriers (UpPyramid_events c l b t)
     = 3 + 2 * length (filter (\<lambda>k. up_valid (up_bounds_at c l k) (fst t + OPS c) (snd t + OPS c))
                         [0..<MPSS c])"
  by (simp add: UpPyramid_events_def Let_def barriers_append barriers_call_events
      barriers_seed_events barriers_up_loop up_bounds_at_def barriers_simps)

lemma barriers_DownPyramid:
  "barriers (DownPyramid_events c l b t)
     = 3 + 2 * length (filter (\<lambda>k. down_valid (down_bounds_at c l k) (fst t + OPS c) (snd t + OPS c))
                         [0..<MPSS c])"
  by (simp add: DownPyramid_events_def Let_def barriers_append barriers_call_events
      barriers_seed_events barriers_down_loop down_bounds_at_def barriers_simps)

lemma edge_levels_append: "edge_levels (xs @ ys) = edge_levels xs @ edge_levels ys"
  by (induction xs rule: edge_levels.induct) simp_all

lemma seed_levels_append: "seed_levels (xs @ ys) = seed_levels xs @ seed_levels ys"
  by (induction xs rule: seed_levels.induct) simp_all

lemma write_levels_append: "write_levels (xs @ ys) = write_levels xs @ write_levels ys"
  by (induction xs rule: write_levels.induct) simp_all

lemma levels_seed_events:
  "edge_levels (seed_events c t) = []"
  "write_levels (seed_events c t) = []"
  "seed_levels (seed_events c t) = replicate (NV c) t"
proof -
  have "edge_levels (map (\<lambda>i. Seed i t) ns) = []" for ns by (induction ns) simp_all
  then show "edge_levels (seed_events c t) = []" by (simp add: seed_events_def)
  have "write_levels (map (\<lambda>i. Seed i t) ns) = []" for ns by (induction ns) simp_all
  then show "write_levels (seed_events c t) = []" by (simp add: seed_events_def)
  have "seed_levels (map (\<lambda>i. Seed i t) ns) = replicate (length ns) t" for ns
    by (induction ns) simp_all
  then show "seed_levels (seed_events c t) = replicate (NV c) t" by (simp add: seed_events_def)
qed

lemma levels_write_back_events:
  "edge_levels (write_back_events c t) = []"
  "seed_levels (write_back_events c t) = []"
  "write_levels (write_back_events c t) = replicate (NV c) t"
proof -
  have "edge_levels (concat (map (\<lambda>j. [Write_back j t, Reseed j t]) ns)) = []" for ns
    by (induction ns) simp_all
  then show "edge_levels (write_back_events c t) = []" by (simp add: write_back_events_def)
  have "seed_levels (concat (map (\<lambda>j. [Write_back j t, Reseed j t]) ns)) = []" for ns
    by (induction ns) simp_all
  then show "seed_levels (write_back_events c t) = []" by (simp add: write_back_events_def)
  have "write_levels (concat (map (\<lambda>j. [Write_back j t, Reseed j t]) ns))
      = replicate (length ns) t" for ns
    by (induction ns) simp_all
  then show "write_levels (write_back_events c t) = replicate (NV c) t"
    by (simp add: write_back_events_def)
qed

lemma levels_shared_state_zero_events:
  "edge_levels (shared_state_zero_events c l b t) = []"
  "seed_levels (shared_state_zero_events c l b t) = []"
  "write_levels (shared_state_zero_events c l b t) = []"
  by (simp_all add: shared_state_zero_events_def)

lemma levels_edge_comm_events:
  "edge_levels (edge_comm_events c l b t lv)
     = (if tgid_of l b t < blockDim_y l + 2 * OPS c then [lv] else [])"
  "seed_levels (edge_comm_events c l b t lv) = []"
  "write_levels (edge_comm_events c l b t lv) = []"
  by (simp_all add: edge_comm_events_def)

lemma levels_down_loop_events:
  "edge_levels (down_loop_events c x y ks b) = []"
  "seed_levels (down_loop_events c x y ks b) = []"
  by (induction ks arbitrary: b)
     (simp_all add: edge_levels_append seed_levels_append levels_write_back_events)

lemma write_levels_down_loop_subset:
  "set (write_levels (down_loop_events c x y ks b)) \<subseteq> Suc ` set ks"
  by (induction ks arbitrary: b)
     (auto simp: write_levels_append levels_write_back_events)

lemma write_levels_down_loop_all:
  assumes "0 < NV c" "\<forall>i<length ks. down_valid ((down_update c ^^ i) b) x y"
  shows "set (write_levels (down_loop_events c x y ks b)) = Suc ` set ks"
  using assms(2)
proof (induction ks arbitrary: b)
  case Nil
  show ?case by simp
next
  case (Cons k ks)
  have v0: "down_valid b x y" using Cons.prems by force
  have "\<forall>i<length ks. down_valid ((down_update c ^^ i) (down_update c b)) x y"
  proof (intro allI impI)
    fix i assume "i < length ks"
    then have "Suc i < length (k # ks)" by simp
    with Cons.prems have "down_valid ((down_update c ^^ Suc i) b) x y" by blast
    then show "down_valid ((down_update c ^^ i) (down_update c b)) x y"
      by (simp only: funpow_Suc_right o_apply)
  qed
  from Cons.IH [OF this] v0 assms(1) show ?case
    by (simp add: write_levels_append levels_write_back_events)
qed

lemma down_valid_grows:
  assumes "down_valid b x y"
  shows "down_valid ((down_update c ^^ i) b) x y"
proof -
  have "0 \<le> int i * int (OPS c)" by simp
  then show ?thesis
    using assms unfolding down_valid_def down_update_funpow bounds.simps by linarith
qed


lemma DownPyramid_edge_levels:
  "edge_levels (DownPyramid_events c l b t)
     = (if tgid_of l b t < blockDim_y l + 2 * OPS c then [MPSS c] else [])"
  by (simp add: DownPyramid_events_def Let_def edge_levels_append levels_seed_events
      levels_shared_state_zero_events levels_edge_comm_events levels_down_loop_events)

lemma DownPyramid_seed_levels_eq:
  "seed_levels (DownPyramid_events c l b t) = replicate (NV c) 0"
  by (simp add: DownPyramid_events_def Let_def seed_levels_append levels_seed_events
      levels_shared_state_zero_events levels_edge_comm_events levels_down_loop_events)

lemma DownPyramid_write_levels:
  "write_levels (DownPyramid_events c l b t)
     = write_levels (down_loop_events c (fst t + OPS c) (snd t + OPS c) [0..<MPSS c] (down_bounds c l))"
  by (simp add: DownPyramid_events_def Let_def write_levels_append levels_seed_events
      levels_shared_state_zero_events levels_edge_comm_events)

lemma down_loop_levels_subset:
  "set (write_levels (down_loop_events c x y [0..<n] b)) \<subseteq> {1..n}"
  using write_levels_down_loop_subset [of c x y "[0..<n]" b] by (simp add: atLeastLessThanSuc_atLeastAtMost)

lemma down_loop_levels_all:
  assumes "0 < NV c" "down_valid b x y"
  shows "set (write_levels (down_loop_events c x y [0..<n] b)) = {1..n}"
proof -
  have "\<forall>i<length [0..<n]. down_valid ((down_update c ^^ i) b) x y"
    using down_valid_grows [OF assms(2)] by simp
  from write_levels_down_loop_all [OF assms(1) this] show ?thesis
    by (simp add: atLeastLessThanSuc_atLeastAtMost)
qed

section \<open>Tile reset and edge exchange\<close>

lemma fold_establish:
  assumes "x \<in> set xs" "\<And>s. P (f x s)" "\<And>y s. y \<in> set xs \<Longrightarrow> P s \<Longrightarrow> P (f y s)"
  shows "P (fold f xs s)"
  using assms
proof (induction xs arbitrary: s)
  case Nil
  then show ?case by simp
next
  case (Cons a xs)
  show ?case
  proof (cases "x \<in> set xs")
    case True
    then show ?thesis using Cons by simp
  next
    case False
    then have "a = x" using Cons.prems(1) by simp
    then have "P (f a s)" using Cons.prems(2) by simp
    then have "P (fold f xs (f a s))"
      by (rule fold_invariant [where Q = "\<lambda>y. y \<in> set xs", rotated]) (simp_all add: Cons.prems(3))
    then show ?thesis by simp
  qed
qed

lemma fold_upd_keep:
  assumes "s a = w" "\<And>j. j \<in> set js \<Longrightarrow> A j = a \<Longrightarrow> v j = w"
  shows "fold (\<lambda>j s'. s'(A j := v j)) js s a = w"
  by (rule fold_invariant [where Q = "\<lambda>j. j \<in> set js" and P = "\<lambda>s. s a = w"])
     (use assms in auto)

lemma fold_upd_hit:
  assumes "j0 \<in> set js" "A j0 = a" "\<And>j. j \<in> set js \<Longrightarrow> A j = a \<Longrightarrow> v j = w"
  shows "fold (\<lambda>j s'. s'(A j := v j)) js s a = w"
  by (rule fold_establish [where x = j0 and P = "\<lambda>s. s a = w"])
     (use assms in auto)

lemma set_threads: "set (threads l) = {t. in_block l t}"
  by (auto simp: threads_def in_block_def)

lemma set_blocks: "set (blocks l) = {b. in_grid l b}"
  by (auto simp: blocks_def in_grid_def)

lemma tgid_of_thread:
  assumes "in_block l t"
  shows "tgid_of l b t = snd t * blockDim_x l + fst t"
proof -
  have "snd t * blockDim_x l + fst t < blockDim_x l * blockDim_y l"
    using block_offset_lt [of "fst t" "blockDim_x l" "snd t" "blockDim_y l"] assms
    by (simp add: in_block_def mult.commute add.commute)
  then show ?thesis
    by (simp add: tgid_of_def getGlobalIdx_2D_2D_def Let_def add.assoc)
qed

lemma thread_of_tgid:
  assumes "n < blockDim_x l * blockDim_y l"
  shows "\<exists>t. in_block l t \<and> tgid_of l b t = n"
proof -
  have pos: "0 < blockDim_x l" using assms by (cases "blockDim_x l") simp_all
  let ?t = "(n mod blockDim_x l, n div blockDim_x l)"
  have "n div blockDim_x l < blockDim_y l"
    using assms pos by (simp add: less_mult_imp_div_less mult.commute)
  then have ib: "in_block l ?t" using pos by (simp add: in_block_def)
  from tgid_of_thread [OF ib, of b] have "tgid_of l b ?t = n" by simp
  with ib show ?thesis by blast
qed






lemma tile_addr_inj:
  fixes W H S :: nat
  assumes "y < W" "y' < W" "x < H" "x' < H" "W * H \<le> S"
    and eq: "y + x * W + j * S = y' + x' * W + j' * S"
  shows "y = y' \<and> x = x' \<and> j = j'"
proof -
  have r: "y + W * x < S"
  proof -
    have "y + W * x < H * W" using block_offset_lt [OF assms(1) assms(3)] .
    then show ?thesis using assms(5) by (simp add: mult.commute)
  qed
  have r': "y' + W * x' < S"
  proof -
    have "y' + W * x' < H * W" using block_offset_lt [OF assms(2) assms(4)] .
    then show ?thesis using assms(5) by (simp add: mult.commute)
  qed
  have "(y + W * x) + S * j = (y' + W * x') + S * j'"
    using eq by (simp add: mult.commute)
  from plane_index_inj [OF r r' this]
  have j: "j = j'" and e: "y + W * x = y' + W * x'" by simp_all
  from plane_index_inj [OF assms(1) assms(2) e] j show ?thesis by simp
qed

lemma edge_rows_keep:
  fixes sh :: "nat \<Rightarrow> 'a"
  assumes "tgid < blockDim_y l + 2 * OPS c"
    and "\<And>i. i \<in> set rows \<Longrightarrow> i < blockDim_x l + 2 * OPS c"
    and "(blockDim_y l + 2 * OPS c) * (blockDim_x l + 2 * OPS c) \<le> SGIDS c"
    and "y < blockDim_y l + 2 * OPS c" "x < blockDim_x l + 2 * OPS c"
    and "gid = tgid + snd b * blockDim_y l
               + blockDim_x l * fst b * (gridDim_y l * blockDim_y l + 2 * OPS c)"
    and "sh (tile_cell c l x y j) = st (global_cell c l b x y j t)"
  shows "edge_rows c l tgid gid t st rows sh (tile_cell c l x y j) = st (global_cell c l b x y j t)"
  unfolding edge_rows_def Let_def
proof (rule fold_invariant [where Q = "\<lambda>i. i \<in> set rows"
      and P = "\<lambda>s. s (tile_cell c l x y j) = st (global_cell c l b x y j t)"])
  show "sh (tile_cell c l x y j) = st (global_cell c l b x y j t)" by (rule assms(7))
  show "i \<in> set rows" if "i \<in> set rows" for i by (rule that)
  show "fold (\<lambda>j' sh'. sh'(tgid + i * (blockDim_y l + 2 * OPS c) + j' * SGIDS c
            := st (gid + i * (gridDim_y l * blockDim_y l + 2 * OPS c) + j' * VARS c + t * TIMES c)))
          [0..<NV c] s (tile_cell c l x y j) = st (global_cell c l b x y j t)"
    if i: "i \<in> set rows" and s: "s (tile_cell c l x y j) = st (global_cell c l b x y j t)"
    for i and s :: "nat \<Rightarrow> 'a"
  proof (rule fold_upd_keep)
    show "s (tile_cell c l x y j) = st (global_cell c l b x y j t)" by (rule s)
  next
    fix j' assume "tgid + i * (blockDim_y l + 2 * OPS c) + j' * SGIDS c = tile_cell c l x y j"
    then have "tgid + i * (blockDim_y l + 2 * OPS c) + j' * SGIDS c
        = y + x * (blockDim_y l + 2 * OPS c) + j * SGIDS c"
      by (simp add: tile_cell_def get_sgid_def mult.commute)
    from tile_addr_inj [OF assms(1) assms(4) assms(2) [OF i] assms(5) assms(3) this]
    have "tgid = y" "i = x" "j' = j" by simp_all
    then show "st (gid + i * (gridDim_y l * blockDim_y l + 2 * OPS c) + j' * VARS c + t * TIMES c)
        = st (global_cell c l b x y j t)"
      by (simp add: global_cell_def assms(6) algebra_simps)
  qed
qed

lemma edge_rows_hit:
  fixes sh :: "nat \<Rightarrow> 'a"
  assumes "y < blockDim_y l + 2 * OPS c"
    and "\<And>i. i \<in> set rows \<Longrightarrow> i < blockDim_x l + 2 * OPS c"
    and "(blockDim_y l + 2 * OPS c) * (blockDim_x l + 2 * OPS c) \<le> SGIDS c"
    and "x \<in> set rows" "j < NV c"
    and "gid = y + snd b * blockDim_y l
               + blockDim_x l * fst b * (gridDim_y l * blockDim_y l + 2 * OPS c)"
  shows "edge_rows c l y gid t st rows sh (tile_cell c l x y j) = st (global_cell c l b x y j t)"
  unfolding edge_rows_def Let_def
proof (rule fold_establish [where x = x
      and P = "\<lambda>s. s (tile_cell c l x y j) = st (global_cell c l b x y j t)"])
  have xr: "x < blockDim_x l + 2 * OPS c" using assms(2) [OF assms(4)] .
  have consistent:
    "st (gid + i * (gridDim_y l * blockDim_y l + 2 * OPS c) + j' * VARS c + t * TIMES c)
        = st (global_cell c l b x y j t)"
    if i: "i \<in> set rows"
      and a: "y + i * (blockDim_y l + 2 * OPS c) + j' * SGIDS c = tile_cell c l x y j"
    for i j'
  proof -
    from a have "y + i * (blockDim_y l + 2 * OPS c) + j' * SGIDS c
        = y + x * (blockDim_y l + 2 * OPS c) + j * SGIDS c"
      by (simp add: tile_cell_def get_sgid_def mult.commute)
    from tile_addr_inj [OF assms(1) assms(1) assms(2) [OF i] xr assms(3) this]
    have "i = x" "j' = j" by simp_all
    then show ?thesis by (simp add: global_cell_def assms(6) algebra_simps)
  qed
  show "x \<in> set rows" by (rule assms(4))
  show "fold (\<lambda>j' sh'. sh'(y + x * (blockDim_y l + 2 * OPS c) + j' * SGIDS c
            := st (gid + x * (gridDim_y l * blockDim_y l + 2 * OPS c) + j' * VARS c + t * TIMES c)))
          [0..<NV c] s (tile_cell c l x y j) = st (global_cell c l b x y j t)"
    for s :: "nat \<Rightarrow> 'a"
  proof (rule fold_upd_hit [where ?j0.0 = j])
    show "j \<in> set [0..<NV c]" using assms(5) by simp
    show "y + x * (blockDim_y l + 2 * OPS c) + j * SGIDS c = tile_cell c l x y j"
      by (simp add: tile_cell_def get_sgid_def mult.commute)
    show "st (gid + x * (gridDim_y l * blockDim_y l + 2 * OPS c) + j' * VARS c + t * TIMES c)
        = st (global_cell c l b x y j t)"
      if "y + x * (blockDim_y l + 2 * OPS c) + j' * SGIDS c = tile_cell c l x y j" for j'
      using consistent [OF assms(4) that] .
  qed
  show "fold (\<lambda>j' sh'. sh'(y + i * (blockDim_y l + 2 * OPS c) + j' * SGIDS c
            := st (gid + i * (gridDim_y l * blockDim_y l + 2 * OPS c) + j' * VARS c + t * TIMES c)))
          [0..<NV c] s (tile_cell c l x y j) = st (global_cell c l b x y j t)"
    if i: "i \<in> set rows" and s: "s (tile_cell c l x y j) = st (global_cell c l b x y j t)"
    for i and s :: "nat \<Rightarrow> 'a"
  proof (rule fold_upd_keep)
    show "s (tile_cell c l x y j) = st (global_cell c l b x y j t)" by (rule s)
    show "st (gid + i * (gridDim_y l * blockDim_y l + 2 * OPS c) + j' * VARS c + t * TIMES c)
        = st (global_cell c l b x y j t)"
      if "y + i * (blockDim_y l + 2 * OPS c) + j' * SGIDS c = tile_cell c l x y j" for j'
      using consistent [OF i that] .
  qed
qed

text \<open>
  The \<^verbatim>\<open>gid\<close> of \<^verbatim>\<open>edge_comm\<close> is the offset of column \<open>tgid\<close> in row 0 of the
  block's tile. It lies in the grid plane, so it is not reduced when the plane fits 32 bits.
\<close>

lemma edge_gid_exact:
  assumes fit: "(gridDim_x l * blockDim_x l + 2 * OPS c) * (gridDim_y l * blockDim_y l + 2 * OPS c)
                  \<le> 2 ^ 32"
    and b: "in_grid l b" and tg: "tg < blockDim_y l + 2 * OPS c" and pos: "0 < blockDim_x l"
  shows "(tg + snd b * blockDim_y l
            + blockDim_x l * fst b * (gridDim_y l * blockDim_y l + 2 * OPS c)) mod 2 ^ 32
         = tg + snd b * blockDim_y l
            + blockDim_x l * fst b * (gridDim_y l * blockDim_y l + 2 * OPS c)"
proof -
  let ?M = "gridDim_y l * blockDim_y l + 2 * OPS c"
  let ?N = "gridDim_x l * blockDim_x l + 2 * OPS c"
  have "blockDim_y l * Suc (snd b) \<le> blockDim_y l * gridDim_y l"
    using b by (intro mult_le_mono2) (simp add: in_grid_def)
  then have Y: "tg + snd b * blockDim_y l < ?M"
    using tg by (simp add: mult.commute)
  have "blockDim_x l * Suc (fst b) \<le> blockDim_x l * gridDim_x l"
    using b by (intro mult_le_mono2) (simp add: in_grid_def)
  then have X: "blockDim_x l * fst b < ?N"
    using pos by (simp add: mult.commute)
  have "(tg + snd b * blockDim_y l) + ?M * (blockDim_x l * fst b) < ?N * ?M"
    by (rule block_offset_lt [OF Y X])
  then have "tg + snd b * blockDim_y l + blockDim_x l * fst b * ?M < 2 ^ 32"
    using fit by (simp add: mult.commute)
  then show ?thesis by simp
qed

lemma edge_comm_thread_keep:
  fixes sh :: "nat \<Rightarrow> 'a"
  assumes fit: "(gridDim_x l * blockDim_x l + 2 * OPS c) * (gridDim_y l * blockDim_y l + 2 * OPS c)
                  \<le> 2 ^ 32"
    and b: "in_grid l b" and pos: "0 < blockDim_x l"
    and S: "(blockDim_y l + 2 * OPS c) * (blockDim_x l + 2 * OPS c) \<le> SGIDS c"
    and y: "y < blockDim_y l + 2 * OPS c" and x: "x < blockDim_x l + 2 * OPS c"
    and k: "sh (tile_cell c l x y j) = st (global_cell c l b x y j t)"
  shows "edge_comm_thread c l b st t u sh (tile_cell c l x y j) = st (global_cell c l b x y j t)"
proof (cases "tgid_of l b u < blockDim_y l + 2 * OPS c")
  case False
  then show ?thesis using k by (simp add: edge_comm_thread_def Let_def)
next
  case True
  let ?gid = "tgid_of l b u + snd b * blockDim_y l
               + blockDim_x l * fst b * (gridDim_y l * blockDim_y l + 2 * OPS c)"
  note g = edge_gid_exact [OF fit b True pos]
  have keep: "edge_rows c l (tgid_of l b u) ?gid t st rows s (tile_cell c l x y j)
        = st (global_cell c l b x y j t)"
    if "\<And>i. i \<in> set rows \<Longrightarrow> i < blockDim_x l + 2 * OPS c"
      and "s (tile_cell c l x y j) = st (global_cell c l b x y j t)"
    for rows and s :: "nat \<Rightarrow> 'a"
    by (rule edge_rows_keep) (use True S y x that in auto)
  have 1: "edge_rows c l (tgid_of l b u) ?gid t st [0..<OPS c] sh (tile_cell c l x y j)
        = st (global_cell c l b x y j t)"
    by (rule keep) (simp_all add: k)
  have 2: "edge_rows c l (tgid_of l b u) ?gid t st
             [blockDim_x l + OPS c..<blockDim_x l + 2 * OPS c]
             (edge_rows c l (tgid_of l b u) ?gid t st [0..<OPS c] sh) (tile_cell c l x y j)
        = st (global_cell c l b x y j t)"
    by (rule keep) (simp_all add: 1)
  have 3: "edge_rows c l (tgid_of l b u) ?gid t st [0..<blockDim_x l + 2 * OPS c]
             (edge_rows c l (tgid_of l b u) ?gid t st
               [blockDim_x l + OPS c..<blockDim_x l + 2 * OPS c]
               (edge_rows c l (tgid_of l b u) ?gid t st [0..<OPS c] sh)) (tile_cell c l x y j)
        = st (global_cell c l b x y j t)"
    by (rule keep) (simp_all add: 2)
  show ?thesis unfolding edge_comm_thread_def Let_def g using True 2 3 by simp
qed

lemma edge_comm_thread_hit:
  fixes sh :: "nat \<Rightarrow> 'a"
  assumes fit: "(gridDim_x l * blockDim_x l + 2 * OPS c) * (gridDim_y l * blockDim_y l + 2 * OPS c)
                  \<le> 2 ^ 32"
    and b: "in_grid l b" and pos: "0 < blockDim_x l"
    and S: "(blockDim_y l + 2 * OPS c) * (blockDim_x l + 2 * OPS c) \<le> SGIDS c"
    and y: "y < blockDim_y l + 2 * OPS c" and x: "x < blockDim_x l + 2 * OPS c"
    and guard: "x < OPS c \<or> blockDim_x l + OPS c \<le> x \<or> y < OPS c \<or> blockDim_x l + OPS c \<le> y"
    and j: "j < NV c"
    and u: "tgid_of l b u = y"
  shows "edge_comm_thread c l b st t u sh (tile_cell c l x y j) = st (global_cell c l b x y j t)"
proof -
  let ?gid = "y + snd b * blockDim_y l
               + blockDim_x l * fst b * (gridDim_y l * blockDim_y l + 2 * OPS c)"
  let ?w = "st (global_cell c l b x y j t)"
  let ?a = "tile_cell c l x y j"
  let ?r1 = "[0..<OPS c]"
  let ?r2 = "[blockDim_x l + OPS c..<blockDim_x l + 2 * OPS c]"
  let ?r3 = "[0..<blockDim_x l + 2 * OPS c]"
  note g = edge_gid_exact [OF fit b y pos]
  have keep: "edge_rows c l y ?gid t st rows s ?a = ?w"
    if "\<And>i. i \<in> set rows \<Longrightarrow> i < blockDim_x l + 2 * OPS c" and "s ?a = ?w"
    for rows and s :: "nat \<Rightarrow> 'a"
    by (rule edge_rows_keep) (use S y x that in auto)
  have hit: "edge_rows c l y ?gid t st rows s ?a = ?w"
    if "\<And>i. i \<in> set rows \<Longrightarrow> i < blockDim_x l + 2 * OPS c" and "x \<in> set rows"
    for rows and s :: "nat \<Rightarrow> 'a"
    by (rule edge_rows_hit) (use S y j that in auto)
  have unf: "edge_comm_thread c l b st t u sh ?a =
      (if y < OPS c \<or> blockDim_x l + OPS c \<le> y
       then edge_rows c l y ?gid t st ?r3 (edge_rows c l y ?gid t st ?r2 (edge_rows c l y ?gid t st ?r1 sh)) ?a
       else edge_rows c l y ?gid t st ?r2 (edge_rows c l y ?gid t st ?r1 sh) ?a)"
    unfolding edge_comm_thread_def Let_def u g using y by simp
  have x3: "x \<in> set ?r3" using x by simp
  from guard consider (near) "x < OPS c" | (far) "blockDim_x l + OPS c \<le> x"
    | (side) "y < OPS c \<or> blockDim_x l + OPS c \<le> y"
    by blast
  then show ?thesis
  proof cases
    case near
    then have "x \<in> set ?r1" by simp
    then have 1: "edge_rows c l y ?gid t st ?r1 sh ?a = ?w" by (intro hit) simp_all
    have 2: "edge_rows c l y ?gid t st ?r2 (edge_rows c l y ?gid t st ?r1 sh) ?a = ?w"
      by (rule keep) (simp_all add: 1)
    have 3: "edge_rows c l y ?gid t st ?r3
        (edge_rows c l y ?gid t st ?r2 (edge_rows c l y ?gid t st ?r1 sh)) ?a = ?w"
      by (rule keep) (simp_all add: 2)
    show ?thesis unfolding unf using 2 3 by simp
  next
    case far
    then have "x \<in> set ?r2" using x by simp
    then have 2: "edge_rows c l y ?gid t st ?r2 (edge_rows c l y ?gid t st ?r1 sh) ?a = ?w"
      by (intro hit) simp_all
    have 3: "edge_rows c l y ?gid t st ?r3
        (edge_rows c l y ?gid t st ?r2 (edge_rows c l y ?gid t st ?r1 sh)) ?a = ?w"
      by (rule keep) (simp_all add: 2)
    show ?thesis unfolding unf using 2 3 by simp
  next
    case side
    have 3: "edge_rows c l y ?gid t st ?r3
        (edge_rows c l y ?gid t st ?r2 (edge_rows c l y ?gid t st ?r1 sh)) ?a = ?w"
      by (rule hit) (use x3 in simp_all)
    show ?thesis unfolding unf using side 3 by simp
  qed
qed

text \<open>
  What the edge exchange copies: a cell that its loops visit holds afterwards the value of
  its cell of the global array at the time level passed by the caller.
\<close>

lemma edge_comm_copies:
  fixes sh :: "nat \<Rightarrow> 'a"
  assumes fit: "(gridDim_x l * blockDim_x l + 2 * OPS c) * (gridDim_y l * blockDim_y l + 2 * OPS c)
                  \<le> 2 ^ 32"
    and b: "in_grid l b"
    and S: "(blockDim_y l + 2 * OPS c) * (blockDim_x l + 2 * OPS c) \<le> SGIDS c"
    and v: "edge_copied c l x y"
    and j: "j < NV c"
  shows "edge_comm c l b st t sh (tile_cell c l x y j) = st (global_cell c l b x y j t)"
proof -
  from v have x: "x < blockDim_x l + 2 * OPS c" and y: "y < blockDim_y l + 2 * OPS c"
    and thread: "y < blockDim_x l * blockDim_y l"
    and guard: "x < OPS c \<or> blockDim_x l + OPS c \<le> x \<or> y < OPS c \<or> blockDim_x l + OPS c \<le> y"
    by (simp_all add: edge_copied_def)
  have pos: "0 < blockDim_x l" using thread by (cases "blockDim_x l") simp_all
  from thread_of_tgid [OF thread, of b]
  obtain u where u: "in_block l u" "tgid_of l b u = y" by blast
  show ?thesis
    unfolding edge_comm_def
  proof (rule fold_establish [where x = u
        and P = "\<lambda>s. s (tile_cell c l x y j) = st (global_cell c l b x y j t)"])
    show "u \<in> set (threads l)" using u(1) by (simp add: set_threads)
    show "edge_comm_thread c l b st t u s (tile_cell c l x y j) = st (global_cell c l b x y j t)"
      for s :: "nat \<Rightarrow> 'a"
      by (rule edge_comm_thread_hit [where sh = s and st = st, OF fit b pos S y x guard j u(2)])
    show "edge_comm_thread c l b st t v s (tile_cell c l x y j) = st (global_cell c l b x y j t)"
      if "s (tile_cell c l x y j) = st (global_cell c l b x y j t)"
      for v and s :: "nat \<Rightarrow> 'a"
      by (rule edge_comm_thread_keep [where sh = s and st = st, OF fit b pos S y x that])
  qed
qed

text \<open>
  On a tile that is no wider than high the test of the third loop is passed by every column
  outside the interior, so the whole halo is copied when every column has a thread.
\<close>

lemma edge_comm_fills_halo:
  fixes sh :: "nat \<Rightarrow> 'a"
  assumes "(gridDim_x l * blockDim_x l + 2 * OPS c) * (gridDim_y l * blockDim_y l + 2 * OPS c)
             \<le> 2 ^ 32"
    and "in_grid l b"
    and "blockDim_y l + 2 * OPS c \<le> blockDim_x l * blockDim_y l"
    and "blockDim_x l \<le> blockDim_y l"
    and "(blockDim_y l + 2 * OPS c) * (blockDim_x l + 2 * OPS c) \<le> SGIDS c"
    and "halo c l x y" "j < NV c"
  shows "edge_comm c l b st t sh (tile_cell c l x y j) = st (global_cell c l b x y j t)"
  by (rule edge_comm_copies) (use assms in \<open>auto simp: halo_def edge_copied_def\<close>)

text \<open>
  What the edge exchange leaves alone: every other cell of the tile, that is a column that no
  thread serves and, in the rows the first two loops do not visit, a column that fails the
  test of the third loop.
\<close>

lemma edge_rows_untouched:
  fixes sh :: "nat \<Rightarrow> 'a"
  assumes "tgid < blockDim_y l + 2 * OPS c"
    and "\<And>i. i \<in> set rows \<Longrightarrow> i < blockDim_x l + 2 * OPS c"
    and "(blockDim_y l + 2 * OPS c) * (blockDim_x l + 2 * OPS c) \<le> SGIDS c"
    and "y < blockDim_y l + 2 * OPS c" "x < blockDim_x l + 2 * OPS c"
    and "tgid \<noteq> y \<or> x \<notin> set rows"
    and "sh (tile_cell c l x y j) = w"
  shows "edge_rows c l tgid gid t st rows sh (tile_cell c l x y j) = w"
  unfolding edge_rows_def Let_def
proof (rule fold_invariant [where Q = "\<lambda>i. i \<in> set rows"
      and P = "\<lambda>s. s (tile_cell c l x y j) = w"])
  show "sh (tile_cell c l x y j) = w" by (rule assms(7))
  show "i \<in> set rows" if "i \<in> set rows" for i by (rule that)
  show "fold (\<lambda>j' sh'. sh'(tgid + i * (blockDim_y l + 2 * OPS c) + j' * SGIDS c
            := st (gid + i * (gridDim_y l * blockDim_y l + 2 * OPS c) + j' * VARS c + t * TIMES c)))
          [0..<NV c] s (tile_cell c l x y j) = w"
    if i: "i \<in> set rows" and s: "s (tile_cell c l x y j) = w"
    for i and s :: "nat \<Rightarrow> 'a"
  proof (rule fold_upd_keep)
    show "s (tile_cell c l x y j) = w" by (rule s)
  next
    fix j' assume "tgid + i * (blockDim_y l + 2 * OPS c) + j' * SGIDS c = tile_cell c l x y j"
    then have "tgid + i * (blockDim_y l + 2 * OPS c) + j' * SGIDS c
        = y + x * (blockDim_y l + 2 * OPS c) + j * SGIDS c"
      by (simp add: tile_cell_def get_sgid_def mult.commute)
    from tile_addr_inj [OF assms(1) assms(4) assms(2) [OF i] assms(5) assms(3) this]
    have "tgid = y" "i = x" by simp_all
    with assms(6) i have False by simp
    then show "st (gid + i * (gridDim_y l * blockDim_y l + 2 * OPS c) + j' * VARS c + t * TIMES c) = w" ..
  qed
qed

lemma edge_comm_thread_leaves:
  fixes sh :: "nat \<Rightarrow> 'a"
  assumes S: "(blockDim_y l + 2 * OPS c) * (blockDim_x l + 2 * OPS c) \<le> SGIDS c"
    and y: "y < blockDim_y l + 2 * OPS c" and x: "x < blockDim_x l + 2 * OPS c"
    and skip: "tgid_of l b u \<noteq> y
               \<or> (OPS c \<le> x \<and> x < blockDim_x l + OPS c
                   \<and> \<not> (y < OPS c \<or> blockDim_x l + OPS c \<le> y))"
    and k: "sh (tile_cell c l x y j) = w"
  shows "edge_comm_thread c l b st t u sh (tile_cell c l x y j) = w"
proof (cases "tgid_of l b u < blockDim_y l + 2 * OPS c")
  case False
  then show ?thesis using k by (simp add: edge_comm_thread_def Let_def)
next
  case True
  define gid where "gid = (tgid_of l b u + snd b * blockDim_y l
      + blockDim_x l * fst b * (gridDim_y l * blockDim_y l + 2 * OPS c)) mod 2 ^ 32"
  have keep: "edge_rows c l (tgid_of l b u) gid t st rows s (tile_cell c l x y j) = w"
    if "\<And>i. i \<in> set rows \<Longrightarrow> i < blockDim_x l + 2 * OPS c"
      and "tgid_of l b u \<noteq> y \<or> x \<notin> set rows"
      and "s (tile_cell c l x y j) = w"
    for rows and s :: "nat \<Rightarrow> 'a"
    by (rule edge_rows_untouched [where sh = s and w = w, OF True that(1) S y x that(2) that(3)])
  have 1: "edge_rows c l (tgid_of l b u) gid t st [0..<OPS c] sh (tile_cell c l x y j) = w"
    by (rule keep) (use skip k in auto)
  have 2: "edge_rows c l (tgid_of l b u) gid t st
             [blockDim_x l + OPS c..<blockDim_x l + 2 * OPS c]
             (edge_rows c l (tgid_of l b u) gid t st [0..<OPS c] sh) (tile_cell c l x y j) = w"
    by (rule keep) (use skip 1 in auto)
  have 3: "edge_rows c l (tgid_of l b u) gid t st [0..<blockDim_x l + 2 * OPS c]
             (edge_rows c l (tgid_of l b u) gid t st
               [blockDim_x l + OPS c..<blockDim_x l + 2 * OPS c]
               (edge_rows c l (tgid_of l b u) gid t st [0..<OPS c] sh)) (tile_cell c l x y j) = w"
    if "tgid_of l b u \<noteq> y"
    by (rule keep) (use that 2 in auto)
  show ?thesis
  proof (cases "tgid_of l b u = y")
    case False
    with True 2 3 show ?thesis
      unfolding edge_comm_thread_def Let_def gid_def [symmetric] by simp
  next
    case eq: True
    with skip have "\<not> (tgid_of l b u < OPS c \<or> blockDim_x l + OPS c \<le> tgid_of l b u)" by simp
    with True 2 show ?thesis
      unfolding edge_comm_thread_def Let_def gid_def [symmetric] by simp
  qed
qed

lemma edge_comm_leaves:
  fixes sh :: "nat \<Rightarrow> 'a"
  assumes S: "(blockDim_y l + 2 * OPS c) * (blockDim_x l + 2 * OPS c) \<le> SGIDS c"
    and x: "x < blockDim_x l + 2 * OPS c" and y: "y < blockDim_y l + 2 * OPS c"
    and v: "\<not> edge_copied c l x y"
  shows "edge_comm c l b st t sh (tile_cell c l x y j) = sh (tile_cell c l x y j)"
  unfolding edge_comm_def
proof (rule fold_invariant [where Q = "\<lambda>u. in_block l u"
      and P = "\<lambda>s. s (tile_cell c l x y j) = sh (tile_cell c l x y j)"])
  show "in_block l u" if "u \<in> set (threads l)" for u using that by (simp add: set_threads)
  show "sh (tile_cell c l x y j) = sh (tile_cell c l x y j)" ..
  show "edge_comm_thread c l b st t u s (tile_cell c l x y j) = sh (tile_cell c l x y j)"
    if u: "in_block l u" and s: "s (tile_cell c l x y j) = sh (tile_cell c l x y j)"
    for u and s :: "nat \<Rightarrow> 'a"
  proof (rule edge_comm_thread_leaves [where sh = s and w = "sh (tile_cell c l x y j)", OF S y x _ s])
    have "snd u * blockDim_x l + fst u < blockDim_x l * blockDim_y l"
      using block_offset_lt [of "fst u" "blockDim_x l" "snd u" "blockDim_y l"] u
      by (simp add: in_block_def mult.commute add.commute)
    then have "tgid_of l b u < blockDim_x l * blockDim_y l"
      by (simp add: tgid_of_thread [OF u])
    with v x y show "tgid_of l b u \<noteq> y
               \<or> (OPS c \<le> x \<and> x < blockDim_x l + OPS c
                   \<and> \<not> (y < OPS c \<or> blockDim_x l + OPS c \<le> y))"
      by (auto simp: edge_copied_def)
  qed
qed

text \<open>
  Claim C3. The claim asks that after the edge exchange every halo cell of the tile holds the
  value of the corresponding cell of the global array. The third copy loop, which fills the
  halo columns beside the interior, is guarded by \<^verbatim>\<open>tgid<OPS || blockDim.x+OPS<=tgid\<close>,
  although \<open>tgid\<close> is here a column index, bounded by \<^verbatim>\<open>blockDim.y+TWO*OPS\<close>. On a tile
  wider than high the far halo columns fail the test. On a 4 by 2 block with radius 1, which
  has eight threads for the four columns of the padded tile, no loop visits the halo cells of
  column 3 in the interior rows 1 to 4: they keep the zero they held before the exchange,
  where the global array holds 8, 12, 16 and 20. The cell of that column in row 0 is copied
  by the first loop.
\<close>

theorem edge_comm_misses_far_column:
  "map (\<lambda>x. halo (cfg 1 1 2 24 32 64) (geom 1 1 4 2) x 3) [0, 1, 2, 3, 4]
       = [True, True, True, True, True]
   \<and> blockDim_y (geom 1 1 4 2) + 2 * OPS (cfg 1 1 2 24 32 64)
        \<le> blockDim_x (geom 1 1 4 2) * blockDim_y (geom 1 1 4 2)
   \<and> map (\<lambda>x. edge_copied (cfg 1 1 2 24 32 64) (geom 1 1 4 2) x 3) [0, 1, 2, 3, 4]
       = [True, False, False, False, False]
   \<and> map (\<lambda>x. edge_comm (cfg 1 1 2 24 32 64) (geom 1 1 4 2) (0, 0) (\<lambda>a. int a + 1) 0 (\<lambda>a. 0)
               (tile_cell (cfg 1 1 2 24 32 64) (geom 1 1 4 2) x 3 0)) [0, 1, 2, 3, 4]
       = [4, 0, 0, 0, 0]
   \<and> map (\<lambda>x. int (global_cell (cfg 1 1 2 24 32 64) (geom 1 1 4 2) (0, 0) x 3 0 0) + 1) [0, 1, 2, 3, 4]
       = [4, 8, 12, 16, 20]"
proof -
  let ?c = "cfg 1 1 2 24 32 64" and ?l = "geom 1 1 4 2"
  have copied: "edge_comm ?c ?l (0, 0) (\<lambda>a. int a + 1) 0 (\<lambda>a. 0) (tile_cell ?c ?l 0 3 0)
      = int (global_cell ?c ?l (0, 0) 0 3 0 0) + 1"
    by (rule edge_comm_copies) (simp_all add: cfg_def geom_def in_grid_def edge_copied_def)
  have e0: "edge_comm ?c ?l (0, 0) (\<lambda>a. int a + 1) 0 (\<lambda>a. 0) (tile_cell ?c ?l 0 3 0) = 4"
    unfolding copied by (simp add: global_cell_def cfg_def geom_def)
  have left: "edge_comm ?c ?l (0, 0) (\<lambda>a. int a + 1) 0 (\<lambda>a. 0) (tile_cell ?c ?l x 3 0) = 0"
    if "x \<in> {1, 2, 3, 4}" for x
    by (subst edge_comm_leaves) (use that in \<open>auto simp: cfg_def geom_def edge_copied_def\<close>)
  have e: "edge_comm ?c ?l (0, 0) (\<lambda>a. int a + 1) 0 (\<lambda>a. 0) (tile_cell ?c ?l 1 3 0) = 0"
    "edge_comm ?c ?l (0, 0) (\<lambda>a. int a + 1) 0 (\<lambda>a. 0) (tile_cell ?c ?l 2 3 0) = 0"
    "edge_comm ?c ?l (0, 0) (\<lambda>a. int a + 1) 0 (\<lambda>a. 0) (tile_cell ?c ?l 3 3 0) = 0"
    "edge_comm ?c ?l (0, 0) (\<lambda>a. int a + 1) 0 (\<lambda>a. 0) (tile_cell ?c ?l 4 3 0) = 0"
    by (rule left, simp)+
  show ?thesis
    by (simp only: list.map e0 e)
       (simp add: global_cell_def halo_def edge_copied_def cfg_def geom_def)
qed

text \<open>
  Apart from the test of the third loop, a column is copied only if the block has a thread
  with that linear index: in a 2 by 2 block with radius 2 no thread copies column 4.
\<close>

lemma edge_comm_few_threads:
  "halo (cfg 2 1 0 36 64 64) (geom 1 1 2 2) 0 4
   \<and> edge_comm (cfg 2 1 0 36 64 64) (geom 1 1 2 2) (0, 0) (\<lambda>a. int a + 1) 0 (\<lambda>a. 0)
        (tile_cell (cfg 2 1 0 36 64 64) (geom 1 1 2 2) 0 4 0) = 0
   \<and> int (global_cell (cfg 2 1 0 36 64 64) (geom 1 1 2 2) (0, 0) 0 4 0 0) + 1 = 5"
proof -
  have "edge_comm (cfg 2 1 0 36 64 64) (geom 1 1 2 2) (0, 0) (\<lambda>a. int a + 1) 0 (\<lambda>a. 0)
        (tile_cell (cfg 2 1 0 36 64 64) (geom 1 1 2 2) 0 4 0) = 0"
    by (subst edge_comm_leaves) (simp_all add: cfg_def geom_def edge_copied_def)
  then show ?thesis by (simp add: global_cell_def halo_def cfg_def geom_def)
qed

section \<open>Interior seeding\<close>

lemma own_tile_inj:
  assumes ws: "well_strided c l"
    and "in_block l t" "in_block l t'"
    and eq: "own_tile c l t j = own_tile c l t' j'"
  shows "t = t' \<and> j = j'"
proof -
  have S: "(blockDim_y l + 2 * OPS c) * (blockDim_x l + 2 * OPS c) \<le> SGIDS c"
    using ws by (simp add: well_strided_def)
  have r: "snd t + OPS c < blockDim_y l + 2 * OPS c" "fst t + OPS c < blockDim_x l + 2 * OPS c"
    "snd t' + OPS c < blockDim_y l + 2 * OPS c" "fst t' + OPS c < blockDim_x l + 2 * OPS c"
    using assms(2,3) by (simp_all add: in_block_def)
  have "(snd t + OPS c) + (fst t + OPS c) * (blockDim_y l + 2 * OPS c) + j * SGIDS c
      = (snd t' + OPS c) + (fst t' + OPS c) * (blockDim_y l + 2 * OPS c) + j' * SGIDS c"
    using eq by (simp add: own_tile_def get_sgid_def mult.commute)
  from tile_addr_inj [OF r(1) r(3) r(2) r(4) S this]
  have "fst t = fst t'" "snd t = snd t'" "j = j'" by simp_all
  then show ?thesis by (simp add: prod_eq_iff)
qed

lemma seed_thread_own:
  fixes s :: "nat \<Rightarrow> 'a"
  assumes ws: "well_strided c l"
    and u: "in_block l u" and t: "in_block l t" and j: "j < NV c"
    and pre: "u = t \<or> s (own_tile c l t j) = st (get_gid c l b t + j * VARS c + off)"
  shows "seed_thread c l b st off u s (own_tile c l t j) = st (get_gid c l b t + j * VARS c + off)"
proof -
  have consistent: "st (get_gid c l b u + i * VARS c + off) = st (get_gid c l b t + j * VARS c + off)"
    if "i \<in> set [0..<NV c]"
      and "get_sgid c l (fst u + OPS c) (snd u + OPS c) + i * SGIDS c = own_tile c l t j"
    for i
  proof -
    have "own_tile c l u i = own_tile c l t j" using that(2) by (simp add: own_tile_def)
    from own_tile_inj [OF ws u t this] show ?thesis by simp
  qed
  from pre show ?thesis
  proof
    assume "u = t"
    show ?thesis
      unfolding seed_thread_def Let_def
    proof (rule fold_upd_hit [where ?j0.0 = j])
      show "j \<in> set [0..<NV c]" using j by simp
      show "get_sgid c l (fst u + OPS c) (snd u + OPS c) + j * SGIDS c = own_tile c l t j"
        by (simp add: own_tile_def \<open>u = t\<close>)
    qed (rule consistent)
  next
    assume "s (own_tile c l t j) = st (get_gid c l b t + j * VARS c + off)"
    then show ?thesis
      unfolding seed_thread_def Let_def
      by (rule fold_upd_keep) (rule consistent)
  qed
qed

lemma seed_own:
  fixes sh :: "nat \<Rightarrow> 'a"
  assumes ws: "well_strided c l" and t: "in_block l t" and j: "j < NV c"
  shows "seed c l b st off sh (own_tile c l t j) = st (get_gid c l b t + j * VARS c + off)"
  unfolding seed_def
proof (rule fold_establish [where x = t
      and P = "\<lambda>s. s (own_tile c l t j) = st (get_gid c l b t + j * VARS c + off)"])
  show "t \<in> set (threads l)" using t by (simp add: set_threads)
  show "seed_thread c l b st off t s (own_tile c l t j) = st (get_gid c l b t + j * VARS c + off)"
    for s :: "nat \<Rightarrow> 'a"
    by (rule seed_thread_own [OF ws t t j]) simp
  show "seed_thread c l b st off u s (own_tile c l t j) = st (get_gid c l b t + j * VARS c + off)"
    if "u \<in> set (threads l)" "s (own_tile c l t j) = st (get_gid c l b t + j * VARS c + off)"
    for u and s :: "nat \<Rightarrow> 'a"
  proof -
    have "in_block l u" using that(1) by (simp add: set_threads)
    from seed_thread_own [OF ws this t j] that(2) show ?thesis by blast
  qed
qed

lemma own_tile_not_halo:
  assumes ws: "well_strided c l" and u: "in_block l u" and h: "halo c l x y"
  shows "own_tile c l u i \<noteq> tile_cell c l x y j"
proof
  assume eq: "own_tile c l u i = tile_cell c l x y j"
  have S: "(blockDim_y l + 2 * OPS c) * (blockDim_x l + 2 * OPS c) \<le> SGIDS c"
    using ws by (simp add: well_strided_def)
  have r: "snd u + OPS c < blockDim_y l + 2 * OPS c" "fst u + OPS c < blockDim_x l + 2 * OPS c"
    using u by (simp_all add: in_block_def)
  have xy: "y < blockDim_y l + 2 * OPS c" "x < blockDim_x l + 2 * OPS c"
    using h by (simp_all add: halo_def)
  have "(snd u + OPS c) + (fst u + OPS c) * (blockDim_y l + 2 * OPS c) + i * SGIDS c
      = y + x * (blockDim_y l + 2 * OPS c) + j * SGIDS c"
    using eq by (simp add: own_tile_def tile_cell_def get_sgid_def mult.commute)
  from tile_addr_inj [OF r(1) xy(1) r(2) xy(2) S this]
  have "snd u + OPS c = y" "fst u + OPS c = x" by simp_all
  then show False using h u by (auto simp: halo_def in_block_def)
qed

lemma seed_keeps_halo:
  fixes sh :: "nat \<Rightarrow> 'a"
  assumes ws: "well_strided c l" and h: "halo c l x y"
  shows "seed c l b st off sh (tile_cell c l x y j) = sh (tile_cell c l x y j)"
  unfolding seed_def
proof (rule fold_invariant [where Q = "\<lambda>u. u \<in> set (threads l)"
      and P = "\<lambda>s. s (tile_cell c l x y j) = sh (tile_cell c l x y j)"])
  show "u \<in> set (threads l)" if "u \<in> set (threads l)" for u by (rule that)
  show "sh (tile_cell c l x y j) = sh (tile_cell c l x y j)" by simp
  show "seed_thread c l b st off u s (tile_cell c l x y j) = sh (tile_cell c l x y j)"
    if "u \<in> set (threads l)" "s (tile_cell c l x y j) = sh (tile_cell c l x y j)"
    for u and s :: "nat \<Rightarrow> 'a"
    unfolding seed_thread_def Let_def
  proof (rule fold_upd_keep)
    show "s (tile_cell c l x y j) = sh (tile_cell c l x y j)" by (rule that(2))
    fix i
    assume "get_sgid c l (fst u + OPS c) (snd u + OPS c) + i * SGIDS c = tile_cell c l x y j"
    then have "own_tile c l u i = tile_cell c l x y j" by (simp add: own_tile_def)
    moreover have "in_block l u" using that(1) by (simp add: set_threads)
    ultimately show "st (get_gid c l b u + i * VARS c + off) = sh (tile_cell c l x y j)"
      using own_tile_not_halo [OF ws _ h] by blast
  qed
qed

section \<open>Edge exchange level, bounds and write-backs of the down pyramid\<close>

text \<open>
  Claim C7, as amended. The DownPyramid kernel runs the edge copy at the time level given by
  the constant \<open>MPSS\<close>, the configured number of steps; its bounds at step \<open>k\<close> are the
  initial bounds moved outward by \<open>k * OPS\<close> on every side, and the write-backs go to time
  levels within \<open>1 \<dots> MPSS\<close>, to all of them when the thread lies in the initial region.
\<close>

theorem DownPyramid_levels:
  "edge_levels (DownPyramid_events c l b t)
     = (if tgid_of l b t < blockDim_y l + 2 * OPS c then [MPSS c] else [])
   \<and> down_bounds_at c l k =
       \<lparr> lx = lx (down_bounds c l) - int k * int (OPS c),
         ly = ly (down_bounds c l) - int k * int (OPS c),
         ux = ux (down_bounds c l) + int k * int (OPS c),
         uy = uy (down_bounds c l) + int k * int (OPS c) \<rparr>
   \<and> set (write_levels (DownPyramid_events c l b t)) \<subseteq> {1..MPSS c}
   \<and> (0 < NV c \<and> down_valid (down_bounds c l) (fst t + OPS c) (snd t + OPS c)
        \<longrightarrow> set (write_levels (DownPyramid_events c l b t)) = {1..MPSS c})"
proof (intro conjI impI)
  show "edge_levels (DownPyramid_events c l b t)
     = (if tgid_of l b t < blockDim_y l + 2 * OPS c then [MPSS c] else [])"
    by (rule DownPyramid_edge_levels)
  show "down_bounds_at c l k =
       \<lparr> lx = lx (down_bounds c l) - int k * int (OPS c),
         ly = ly (down_bounds c l) - int k * int (OPS c),
         ux = ux (down_bounds c l) + int k * int (OPS c),
         uy = uy (down_bounds c l) + int k * int (OPS c) \<rparr>"
    by (simp add: down_bounds_at_def down_update_funpow)
  show "set (write_levels (DownPyramid_events c l b t)) \<subseteq> {1..MPSS c}"
    by (simp only: DownPyramid_write_levels down_loop_levels_subset)
next
  assume "0 < NV c \<and> down_valid (down_bounds c l) (fst t + OPS c) (snd t + OPS c)"
  then show "set (write_levels (DownPyramid_events c l b t)) = {1..MPSS c}"
    by (simp only: DownPyramid_write_levels down_loop_levels_all)
qed

theorem DownPyramid_levels_witness:
  "0 < NV (cfg 1 1 2 36 64 192)
   \<and> down_valid (down_bounds (cfg 1 1 2 36 64 192) (geom 1 1 4 4))
        (fst (1, 1) + OPS (cfg 1 1 2 36 64 192)) (snd (1, 1) + OPS (cfg 1 1 2 36 64 192))
   \<and> set (write_levels (DownPyramid_events (cfg 1 1 2 36 64 192) (geom 1 1 4 4) (0, 0) (1, 1)))
        = {1..MPSS (cfg 1 1 2 36 64 192)}"
proof -
  have h: "0 < NV (cfg 1 1 2 36 64 192)"
    "down_valid (down_bounds (cfg 1 1 2 36 64 192) (geom 1 1 4 4))
        (fst (1, 1) + OPS (cfg 1 1 2 36 64 192)) (snd (1, 1) + OPS (cfg 1 1 2 36 64 192))"
    by (simp_all add: down_valid_def down_bounds_int Let_def cfg_def geom_def)
  note T = DownPyramid_levels [where c = "cfg 1 1 2 36 64 192" and l = "geom 1 1 4 4"
        and b = "(0, 0)" and t = "(1, 1)" and k = 0]
  have d: "set (write_levels (DownPyramid_events (cfg 1 1 2 36 64 192) (geom 1 1 4 4) (0, 0) (1, 1)))
        = {1..MPSS (cfg 1 1 2 36 64 192)}"
    by (rule mp [OF T [THEN conjunct2, THEN conjunct2, THEN conjunct2]]) (intro conjI h)
  show ?thesis by (intro conjI h d)
qed

text \<open>
  The claim as stated makes the starting level a choice of the caller. The kernel has no such
  parameter: two launches that differ only in the configured number of steps exchange their
  edges at different time levels.
\<close>

theorem DownPyramid_edge_level_counterexample:
  "edge_levels (DownPyramid_events (cfg 1 1 2 36 64 192) (geom 1 1 4 4) (0, 0) (0, 0)) = [2]
   \<and> edge_levels (DownPyramid_events (cfg 1 1 3 36 64 192) (geom 1 1 4 4) (0, 0) (0, 0)) = [3]"
  by (simp add: DownPyramid_edge_levels tgid_of_def getGlobalIdx_2D_2D_def cfg_def geom_def)

section \<open>The octahedron kernel: time levels read and written\<close>

































section \<open>The instruction sequences and the other two models\<close>

text \<open>
  The instruction sequences are the same code as the thread functions of the block-level
  model: run by \<open>exec_instr\<close> on a memory, a sequence has the effect of the thread function
  that models the same lines of the source.
\<close>

lemma exec_map_Load:
  fixes m :: "'a::zero memory"
  shows "fold (exec_instr step) (map (\<lambda>i. Load (A i) (G i)) xs) m
     = m\<lparr>shared_state := fold (\<lambda>i s. s(A i := state m (G i))) xs (shared_state m)\<rparr>"
  by (induction xs arbitrary: m) simp_all

lemma exec_map_Clear:
  fixes m :: "'a::zero memory"
  shows "fold (exec_instr step) (map (\<lambda>i. Clear (A i)) xs) m
     = m\<lparr>shared_state := fold (\<lambda>i s. s(A i := 0)) xs (shared_state m)\<rparr>"
  by (induction xs arbitrary: m) simp_all

lemma exec_rows_Load:
  fixes m :: "'a::zero memory"
  shows "fold (exec_instr step) (concat (map (\<lambda>i. map (\<lambda>j. Load (A i j) (G i j)) js) rows)) m
     = m\<lparr>shared_state :=
           fold (\<lambda>i. fold (\<lambda>j s. s(A i j := state m (G i j))) js) rows (shared_state m)\<rparr>"
  by (induction rows arbitrary: m) (simp_all add: exec_map_Load)

lemma exec_rows_Clear:
  fixes m :: "'a::zero memory"
  shows "fold (exec_instr step) (concat (map (\<lambda>i. map (\<lambda>j. Clear (A i j)) js) rows)) m
     = m\<lparr>shared_state := fold (\<lambda>i. fold (\<lambda>j s. s(A i j := 0)) js) rows (shared_state m)\<rparr>"
  by (induction rows arbitrary: m) (simp_all add: exec_map_Clear)

lemma exec_Store_Load:
  fixes m :: "'a::zero memory"
  shows "fold (exec_instr step) (concat (map (\<lambda>j. [Store (G j) (A j), Load (A j) (G j)]) js)) m
     = fold (\<lambda>j m'. let m1 = m'\<lparr>state := (state m')(G j := shared_state m' (A j))\<rparr>
                     in m1\<lparr>shared_state := (shared_state m1)(A j := state m1 (G j))\<rparr>) js m"
  by (induction js arbitrary: m) (simp_all add: Let_def)

lemma exec_shared_state_zero_code:
  fixes m :: "'a::zero memory"
  shows "fold (exec_instr step) (shared_state_zero_code c l b t) m
     = m\<lparr>shared_state := shared_state_zero_thread c l b t (shared_state m)\<rparr>"
  by (simp add: shared_state_zero_code_def shared_state_zero_thread_def Let_def exec_rows_Clear)

lemma exec_edge_rows_code:
  fixes m :: "'a::zero memory"
  shows "fold (exec_instr step) (edge_rows_code c l tg gid lev rows) m
     = m\<lparr>shared_state := edge_rows c l tg gid lev (state m) rows (shared_state m)\<rparr>"
  by (simp add: edge_rows_code_def edge_rows_def Let_def exec_rows_Load)

lemma exec_edge_comm_code:
  fixes m :: "'a::zero memory"
  shows "fold (exec_instr step) (edge_comm_code c l b t lev) m
     = m\<lparr>shared_state := edge_comm_thread c l b (state m) lev t (shared_state m)\<rparr>"
  unfolding edge_comm_code_def edge_comm_thread_def Let_def
  by (simp add: exec_edge_rows_code)

lemma exec_interior_copy_code:
  fixes m :: "'a::zero memory"
  shows "fold (exec_instr step) (interior_copy_code c l b t off) m
     = m\<lparr>shared_state := seed_thread c l b (state m) off t (shared_state m)\<rparr>"
  by (simp add: interior_copy_code_def seed_thread_def Let_def exec_map_Load)

lemma exec_iteration_code:
  fixes m :: "'a::zero memory"
  shows "fold (exec_instr step) (iteration_code c l b t k) m
     = write_back_thread c l b k t (step_thread step c l t m)"
  unfolding iteration_code_def write_back_code_def write_back_thread_def step_thread_def Let_def
  by (simp add: exec_Store_Load Let_def)

text \<open>
  The barriers of a sequence are those of the event list of the same thread.
\<close>

lemma syncs_append: "syncs (p @ q) = syncs p + syncs q"
  by (induction p rule: syncs.induct) simp_all

lemma syncs_map:
  "syncs (map (\<lambda>i. Load (A i) (G i)) xs) = 0"
  "syncs (map (\<lambda>i. Clear (A i)) xs) = 0"
  by (induction xs) simp_all

lemma syncs_rows:
  "syncs (concat (map (\<lambda>i. map (\<lambda>j. Load (A i j) (G i j)) js) rows)) = 0"
  "syncs (concat (map (\<lambda>i. map (\<lambda>j. Clear (A i j)) js) rows)) = 0"
  "syncs (concat (map (\<lambda>j. [Store (G' j) (A' j), Load (A' j) (G' j)]) js)) = 0"
proof -
  show "syncs (concat (map (\<lambda>i. map (\<lambda>j. Load (A i j) (G i j)) js) rows)) = 0"
    by (induction rows) (simp_all add: syncs_append syncs_map)
  show "syncs (concat (map (\<lambda>i. map (\<lambda>j. Clear (A i j)) js) rows)) = 0"
    by (induction rows) (simp_all add: syncs_append syncs_map)
  show "syncs (concat (map (\<lambda>j. [Store (G' j) (A' j), Load (A' j) (G' j)]) js)) = 0"
    by (induction js) simp_all
qed

lemma syncs_pieces:
  "syncs (shared_state_zero_code c l b t) = 1"
  "syncs (edge_comm_code c l b t lev) = 1"
  "syncs (interior_copy_code c l b t off) = 0"
  "syncs (iteration_code c l b t k) = 2"
  by (simp_all add: shared_state_zero_code_def edge_comm_code_def edge_rows_code_def
      interior_copy_code_def iteration_code_def write_back_code_def Let_def
      syncs_append syncs_map syncs_rows)

lemma syncs_loop_code:
  "syncs (down_loop_code c l b t ks bnds)
     = barriers (down_loop_events c (fst t + OPS c) (snd t + OPS c) ks bnds)"
  "syncs (up_loop_code c l b t ks bnds)
     = barriers (up_loop_events c (fst t + OPS c) (snd t + OPS c) ks bnds)"
  by (induction ks arbitrary: bnds)
     (simp_all add: syncs_append syncs_pieces barriers_append barriers_write_back_events
        barriers_simps)

lemma syncs_Octahedron:
  "syncs (Octahedron c l b t) = barriers (Octahedron_events c l b t)"
  by (simp add: Octahedron_def Octahedron_down_half_def Octahedron_up_half_def
      Octahedron_events_def Octahedron_down_events_def Octahedron_up_events_def Let_def
      syncs_append syncs_pieces syncs_loop_code barriers_append barriers_call_events
      barriers_seed_events barriers_simps)

section \<open>Round trip with the identity update\<close>

lemma fold_hit:
  assumes "x \<in> set xs" "J False s"
    and keep: "\<And>y s q. y \<in> set xs \<Longrightarrow> J q s \<Longrightarrow> J q (f y s)"
    and hit: "\<And>s. J False s \<Longrightarrow> J True (f x s)"
  shows "J True (fold f xs s)"
  using assms(1,2,3)
proof (induction xs arbitrary: s)
  case Nil
  then show ?case by simp
next
  case (Cons a xs)
  show ?case
  proof (cases "a = x")
    case True
    have "J True (f a s)" using hit [OF Cons.prems(2)] True by simp
    then have "J True (fold f xs (f a s))"
      by (rule fold_invariant [where Q = "\<lambda>y. y \<in> set xs" and P = "J True", rotated])
         (simp_all add: Cons.prems(3))
    then show ?thesis by simp
  next
    case False
    then have x: "x \<in> set xs" using Cons.prems(1) by simp
    have "J False (f a s)" using Cons.prems(2,3) by simp
    from Cons.IH [OF x this] Cons.prems(3) show ?thesis by simp
  qed
qed

lemma fold_keep:
  assumes "J s" and "\<And>y s. y \<in> set xs \<Longrightarrow> J s \<Longrightarrow> J (f y s)"
  shows "J (fold f xs s)"
  by (rule fold_invariant [where Q = "\<lambda>y. y \<in> set xs" and P = J]) (use assms in auto)

text \<open>
  An offset of the global array determines the offset \<open>get_gid\<close> it was built from, the
  variable and the time level. Two threads with the same \<open>get_gid\<close>, as a wrapped offset
  allows, own the same cells at every level.
\<close>

lemma own_global_inj:
  assumes ws: "well_strided c l"
    and "in_grid l b" "in_grid l b'" "in_block l t" "in_block l t'" "j < NV c" "j' < NV c"
    and eq: "own_global c l b t j lev = own_global c l b' t' j' lev'"
  shows "get_gid c l b t = get_gid c l b' t' \<and> j = j' \<and> lev = lev'"
proof -
  have V: "(gridDim_x l * blockDim_x l + 2 * OPS c) * (gridDim_y l * blockDim_y l + 2 * OPS c)
      \<le> VARS c" and T: "VARS c * NV c \<le> TIMES c"
    using ws by (simp_all add: well_strided_def)
  have g: "get_gid c l b t < VARS c" using get_gid_lt [OF assms(2) assms(4), of c] V by simp
  have g': "get_gid c l b' t' < VARS c" using get_gid_lt [OF assms(3) assms(5), of c] V by simp
  have "get_gid c l b t + j * VARS c + lev * TIMES c
      = get_gid c l b' t' + j' * VARS c + lev' * TIMES c"
    using eq by (simp add: own_global_def)
  from tile_addr_inj [OF g g' assms(6) assms(7) T this]
  show ?thesis by simp
qed

lemma write_keep:
  assumes ws: "well_strided c l" and tg: "target_ok c l tg"
    and v: "in_grid l b" "in_block l t" "j < NV c"
    and inv: "global_inv c l base tg q G"
  shows "global_inv c l base tg q (G(own_global c l b t j (Suc k) := base (own_global c l b t j 0)))"
proof -
  obtain b0 t0 j0 lev0 where tgd: "tg = (b0, t0, j0, lev0)" by (cases tg)
  have ok: "in_grid l b0" "in_block l t0" "j0 < NV c"
    using tg by (simp_all add: target_ok_def tgd)
  have l0: "level0_kept c l base (G(own_global c l b t j (Suc k) := base (own_global c l b t j 0)))"
    unfolding level0_kept_def
  proof (intro allI impI)
    fix b' t' j' assume a: "in_grid l b'" "in_block l t'" "j' < NV c"
    have "own_global c l b' t' j' 0 \<noteq> own_global c l b t j (Suc k)"
      using own_global_inj [OF ws a(1) v(1) a(2) v(2) a(3) v(3), of 0 "Suc k"] by auto
    moreover have "level0_kept c l base G" using inv by (simp add: global_inv_def)
    then have "G (own_global c l b' t' j' 0) = base (own_global c l b' t' j' 0)"
      using a unfolding level0_kept_def by blast
    ultimately show "(G(own_global c l b t j (Suc k) := base (own_global c l b t j 0)))
        (own_global c l b' t' j' 0) = base (own_global c l b' t' j' 0)"
      by simp
  qed
  have td: "target_done c l base tg (G(own_global c l b t j (Suc k) := base (own_global c l b t j 0)))"
    if q
  proof (cases "own_global c l b0 t0 j0 lev0 = own_global c l b t j (Suc k)")
    case True
    from own_global_inj [OF ws ok(1) v(1) ok(2) v(2) ok(3) v(3) True]
    have "own_global c l b0 t0 j0 0 = own_global c l b t j 0" by (simp add: own_global_def)
    with True show ?thesis by (simp add: target_done_def tgd)
  next
    case False
    moreover have "G (own_global c l b0 t0 j0 lev0) = base (own_global c l b0 t0 j0 0)"
      using inv that by (simp add: global_inv_def target_done_def tgd)
    ultimately show ?thesis by (simp add: target_done_def tgd)
  qed
  show ?thesis using l0 td by (simp add: global_inv_def)
qed

lemma write_hit:
  assumes ws: "well_strided c l" and tg: "target_ok c l tg"
    and v: "in_grid l b" "in_block l t" "j < NV c"
    and inv: "global_inv c l base tg False G"
    and this_one: "tg = (b, t, j, Suc k)"
  shows "global_inv c l base tg True (G(own_global c l b t j (Suc k) := base (own_global c l b t j 0)))"
proof -
  have "global_inv c l base tg False (G(own_global c l b t j (Suc k) := base (own_global c l b t j 0)))"
    by (rule write_keep [OF ws tg v inv])
  then show ?thesis by (simp add: global_inv_def target_done_def this_one)
qed

lemma fold_write_back:
  fixes m :: "'a memory"
  shows "fold (\<lambda>j m'. let m1 = m'\<lparr>state := (state m')(ga j := shared_state m' (sa j))\<rparr>
                 in m1\<lparr>shared_state := (shared_state m1)(sa j := state m1 (ga j))\<rparr>) js m
   = m\<lparr>state := fold (\<lambda>j G. G(ga j := shared_state m (sa j))) js (state m)\<rparr>"
proof (induction js arbitrary: m)
  case Nil
  show ?case by simp
next
  case (Cons j js)
  define body where "body = (\<lambda>j (m' :: 'a memory).
      let m1 = m'\<lparr>state := (state m')(ga j := shared_state m' (sa j))\<rparr>
      in m1\<lparr>shared_state := (shared_state m1)(sa j := state m1 (ga j))\<rparr>)"
  define m2 where "m2 = m\<lparr>state := (state m)(ga j := shared_state m (sa j))\<rparr>"
  have one: "body j m = m2"
    by (simp add: body_def m2_def Let_def)
  have sh: "shared_state m2 = shared_state m" by (simp add: m2_def)
  have "fold body (j # js) m = fold body js m2" by (simp add: one)
  also have "\<dots> = m2\<lparr>state := fold (\<lambda>j G. G(ga j := shared_state m2 (sa j))) js (state m2)\<rparr>"
    unfolding body_def by (rule Cons.IH)
  also have "\<dots> = m\<lparr>state := fold (\<lambda>j G. G(ga j := shared_state m (sa j))) (j # js) (state m)\<rparr>"
    unfolding sh by (simp add: m2_def)
  finally show ?case unfolding body_def .
qed

lemma write_back_thread_eq:
  "write_back_thread c l b k t m
     = m\<lparr>state := fold (\<lambda>j G. G(own_global c l b t j (Suc k) := shared_state m (own_tile c l t j)))
                       [0..<NV c] (state m)\<rparr>"
  unfolding write_back_thread_def Let_def own_global_def own_tile_def
  using fold_write_back [of "\<lambda>j. get_gid c l b t + j * VARS c + Suc k * TIMES c"
      "\<lambda>j. get_sgid c l (fst t + OPS c) (snd t + OPS c) + j * SGIDS c" "[0..<NV c]" m]
  by (simp add: Let_def)

lemma write_back_thread_keep:
  fixes m :: "'a memory"
  assumes ws: "well_strided c l" and tg: "target_ok c l tg"
    and v: "in_grid l b" "in_block l t"
    and inv: "mem_inv c l b base tg q m"
  shows "mem_inv c l b base tg q (write_back_thread c l b k t m)"
proof -
  have ti: "tile_inv c l b base (shared_state m)" using inv by (simp add: mem_inv_def)
  have "global_inv c l base tg q
      (fold (\<lambda>j G. G(own_global c l b t j (Suc k) := shared_state m (own_tile c l t j)))
         [0..<NV c] (state m))"
  proof (rule fold_keep [where J = "global_inv c l base tg q"])
    show "global_inv c l base tg q (state m)" using inv by (simp add: mem_inv_def)
    fix j and G :: "nat \<Rightarrow> 'a"
    assume j: "j \<in> set [0..<NV c]" and G: "global_inv c l base tg q G"
    then have jn: "j < NV c" by simp
    have "shared_state m (own_tile c l t j) = base (own_global c l b t j 0)"
      using ti v(2) jn unfolding tile_inv_def by blast
    then show "global_inv c l base tg q
        (G(own_global c l b t j (Suc k) := shared_state m (own_tile c l t j)))"
      using write_keep [OF ws tg v jn G, of k] by simp
  qed
  then show ?thesis using ti by (simp add: write_back_thread_eq mem_inv_def)
qed

lemma write_back_thread_hit:
  fixes m :: "'a memory"
  assumes ws: "well_strided c l" and tg: "target_ok c l tg"
    and v: "in_grid l b" "in_block l t"
    and inv: "mem_inv c l b base tg False m"
    and this_one: "tg = (b, t, j0, Suc k)"
  shows "mem_inv c l b base tg True (write_back_thread c l b k t m)"
proof -
  have ti: "tile_inv c l b base (shared_state m)" using inv by (simp add: mem_inv_def)
  have j0: "j0 < NV c" using tg by (simp add: target_ok_def this_one)
  have val: "shared_state m (own_tile c l t j) = base (own_global c l b t j 0)" if "j < NV c" for j
    using ti v(2) that unfolding tile_inv_def by blast
  have "global_inv c l base tg True
      (fold (\<lambda>j G. G(own_global c l b t j (Suc k) := shared_state m (own_tile c l t j)))
         [0..<NV c] (state m))"
  proof (rule fold_hit [where J = "global_inv c l base tg" and x = j0])
    show "j0 \<in> set [0..<NV c]" using j0 by simp
    show "global_inv c l base tg False (state m)" using inv by (simp add: mem_inv_def)
    show "global_inv c l base tg q
        (G(own_global c l b t j (Suc k) := shared_state m (own_tile c l t j)))"
      if "j \<in> set [0..<NV c]" "global_inv c l base tg q G" for j q and G :: "nat \<Rightarrow> 'a"
    proof -
      have jn: "j < NV c" using that(1) by simp
      show ?thesis using write_keep [OF ws tg v jn that(2), of k] val [OF jn] by simp
    qed
    show "global_inv c l base tg True
        (G(own_global c l b t j0 (Suc k) := shared_state m (own_tile c l t j0)))"
      if "global_inv c l base tg False G" for G :: "nat \<Rightarrow> 'a"
      using write_hit [OF ws tg v j0 that this_one] val [OF j0] by simp
  qed
  then show ?thesis using ti by (simp add: write_back_thread_eq mem_inv_def)
qed

lemma step_phase_identity:
  fixes m :: "'a memory"
  shows "fold (step_thread identity_step c l) ts m = m"
  by (induction ts) (simp_all add: step_thread_def identity_step_def)

lemma sweep_step_keep:
  fixes m :: "'a memory"
  assumes ws: "well_strided c l" and tg: "target_ok c l tg"
    and b: "in_grid l b" and sub: "set ts \<subseteq> set (threads l)"
    and inv: "mem_inv c l b base tg q m"
  shows "mem_inv c l b base tg q (sweep_step identity_step c l b k ts m)"
  unfolding sweep_step_def step_phase_identity
proof (rule fold_keep [where J = "mem_inv c l b base tg q"])
  have ts: "in_block l t" if "t \<in> set ts" for t
    using that sub by (auto simp: set_threads)
  show "mem_inv c l b base tg q m" by (rule inv)
  show "mem_inv c l b base tg q (write_back_thread c l b k t s)"
    if "t \<in> set ts" "mem_inv c l b base tg q s" for t and s :: "'a memory"
    using write_back_thread_keep [OF ws tg b ts [OF that(1)] that(2)] .
qed

lemma sweep_step_hit:
  fixes m :: "'a memory"
  assumes ws: "well_strided c l" and tg: "target_ok c l tg"
    and b: "in_grid l b" and sub: "set ts \<subseteq> set (threads l)"
    and inv: "mem_inv c l b base tg False m"
    and t0: "t0 \<in> set ts" and this_one: "tg = (b, t0, j0, Suc k)"
  shows "mem_inv c l b base tg True (sweep_step identity_step c l b k ts m)"
  unfolding sweep_step_def step_phase_identity
proof (rule fold_hit [where J = "mem_inv c l b base tg" and x = t0])
  have ts: "in_block l t" if "t \<in> set ts" for t
    using that sub by (auto simp: set_threads)
  show "t0 \<in> set ts" by (rule t0)
  show "mem_inv c l b base tg False m" by (rule inv)
  show "mem_inv c l b base tg q (write_back_thread c l b k t s)"
    if "t \<in> set ts" "mem_inv c l b base tg q s" for t q and s :: "'a memory"
    using write_back_thread_keep [OF ws tg b ts [OF that(1)] that(2)] .
  show "mem_inv c l b base tg True (write_back_thread c l b k t0 s)"
    if "mem_inv c l b base tg False s" for s :: "'a memory"
    using write_back_thread_hit [OF ws tg b ts [OF t0] that this_one] .
qed

lemma up_loop_keep:
  fixes m :: "'a memory"
  assumes ws: "well_strided c l" and tg: "target_ok c l tg" and b: "in_grid l b"
    and inv: "mem_inv c l b base tg q m"
  shows "mem_inv c l b base tg q (up_loop identity_step c l b ks bnds m)"
  using inv
proof (induction ks arbitrary: bnds m)
  case Nil
  then show ?case by simp
next
  case (Cons k ks)
  have "mem_inv c l b base tg q
      (sweep_step identity_step c l b k
         (filter (\<lambda>t. up_valid bnds (fst t + OPS c) (snd t + OPS c)) (threads l)) m)"
    by (rule sweep_step_keep [OF ws tg b _ Cons.prems]) simp
  from Cons.IH [OF this] show ?case by simp
qed

lemma down_loop_keep:
  fixes m :: "'a memory"
  assumes ws: "well_strided c l" and tg: "target_ok c l tg" and b: "in_grid l b"
    and inv: "mem_inv c l b base tg q m"
  shows "mem_inv c l b base tg q (down_loop identity_step c l b ks bnds m)"
  using inv
proof (induction ks arbitrary: bnds m)
  case Nil
  then show ?case by simp
next
  case (Cons k ks)
  have "mem_inv c l b base tg q
      (sweep_step identity_step c l b k
         (filter (\<lambda>t. down_valid bnds (fst t + OPS c) (snd t + OPS c)) (threads l)) m)"
    by (rule sweep_step_keep [OF ws tg b _ Cons.prems]) simp
  from Cons.IH [OF this] show ?case by simp
qed

lemma up_loop_hit:
  fixes m :: "'a memory"
  assumes ws: "well_strided c l" and tg: "target_ok c l tg" and b: "in_grid l b"
    and t0: "in_block l t0"
    and inv: "mem_inv c l b base tg False m"
    and i: "i < length ks" and this_one: "tg = (b, t0, j0, Suc (ks ! i))"
    and valid: "up_valid ((up_update c ^^ i) bnds) (fst t0 + OPS c) (snd t0 + OPS c)"
  shows "mem_inv c l b base tg True (up_loop identity_step c l b ks bnds m)"
  using inv i this_one valid
proof (induction ks arbitrary: bnds m i)
  case Nil
  then show ?case by simp
next
  case (Cons k ks)
  let ?ts = "filter (\<lambda>t. up_valid bnds (fst t + OPS c) (snd t + OPS c)) (threads l)"
  show ?case
  proof (cases i)
    case 0
    have "t0 \<in> set ?ts" using Cons.prems(4) t0 by (simp add: 0 set_threads)
    moreover have "tg = (b, t0, j0, Suc k)" using Cons.prems(3) by (simp add: 0)
    ultimately have "mem_inv c l b base tg True (sweep_step identity_step c l b k ?ts m)"
      by (intro sweep_step_hit [OF ws tg b _ Cons.prems(1)]) simp_all
    from up_loop_keep [OF ws tg b this] show ?thesis by simp
  next
    case (Suc i')
    have 1: "mem_inv c l b base tg False (sweep_step identity_step c l b k ?ts m)"
      by (rule sweep_step_keep [OF ws tg b _ Cons.prems(1)]) simp
    have 2: "i' < length ks" using Cons.prems(2) by (simp add: Suc)
    have 3: "tg = (b, t0, j0, Suc (ks ! i'))" using Cons.prems(3) by (simp add: Suc)
    have 4: "up_valid ((up_update c ^^ i') (up_update c bnds)) (fst t0 + OPS c) (snd t0 + OPS c)"
      using Cons.prems(4) by (simp only: Suc funpow_Suc_right o_apply)
    from Cons.IH [OF 1 2 3 4] show ?thesis by simp
  qed
qed

lemma down_loop_hit:
  fixes m :: "'a memory"
  assumes ws: "well_strided c l" and tg: "target_ok c l tg" and b: "in_grid l b"
    and t0: "in_block l t0"
    and inv: "mem_inv c l b base tg False m"
    and i: "i < length ks" and this_one: "tg = (b, t0, j0, Suc (ks ! i))"
    and valid: "down_valid ((down_update c ^^ i) bnds) (fst t0 + OPS c) (snd t0 + OPS c)"
  shows "mem_inv c l b base tg True (down_loop identity_step c l b ks bnds m)"
  using inv i this_one valid
proof (induction ks arbitrary: bnds m i)
  case Nil
  then show ?case by simp
next
  case (Cons k ks)
  let ?ts = "filter (\<lambda>t. down_valid bnds (fst t + OPS c) (snd t + OPS c)) (threads l)"
  show ?case
  proof (cases i)
    case 0
    have "t0 \<in> set ?ts" using Cons.prems(4) t0 by (simp add: 0 set_threads)
    moreover have "tg = (b, t0, j0, Suc k)" using Cons.prems(3) by (simp add: 0)
    ultimately have "mem_inv c l b base tg True (sweep_step identity_step c l b k ?ts m)"
      by (intro sweep_step_hit [OF ws tg b _ Cons.prems(1)]) simp_all
    from down_loop_keep [OF ws tg b this] show ?thesis by simp
  next
    case (Suc i')
    have 1: "mem_inv c l b base tg False (sweep_step identity_step c l b k ?ts m)"
      by (rule sweep_step_keep [OF ws tg b _ Cons.prems(1)]) simp
    have 2: "i' < length ks" using Cons.prems(2) by (simp add: Suc)
    have 3: "tg = (b, t0, j0, Suc (ks ! i'))" using Cons.prems(3) by (simp add: Suc)
    have 4: "down_valid ((down_update c ^^ i') (down_update c bnds)) (fst t0 + OPS c) (snd t0 + OPS c)"
      using Cons.prems(4) by (simp only: Suc funpow_Suc_right o_apply)
    from Cons.IH [OF 1 2 3 4] show ?thesis by simp
  qed
qed

lemma seed_tile_inv:
  fixes sh :: "nat \<Rightarrow> 'a"
  assumes ws: "well_strided c l" and b: "in_grid l b"
    and l0: "level0_kept c l base st"
  shows "tile_inv c l b base (seed c l b st 0 sh)"
  unfolding tile_inv_def
proof (intro allI impI)
  fix t j assume t: "in_block l t" and j: "j < NV c"
  have "st (own_global c l b t j 0) = base (own_global c l b t j 0)"
    using l0 b t j unfolding level0_kept_def by blast
  then show "seed c l b st 0 sh (own_tile c l t j) = base (own_global c l b t j 0)"
    using seed_own [OF ws t j, of b st 0 sh] by (simp add: own_global_def)
qed

lemma kernel_setup_inv:
  fixes m :: "'a::zero memory"
  assumes ws: "well_strided c l" and b: "in_grid l b"
    and inv: "global_inv c l base tg q (state m)"
  shows "mem_inv c l b base tg q
      (m\<lparr>shared_state := seed c l b (state m) 0 sh\<rparr>)"
proof -
  have "level0_kept c l base (state m)" using inv by (simp add: global_inv_def)
  from seed_tile_inv [OF ws b this] inv show ?thesis by (simp add: mem_inv_def)
qed

lemma UpPyramid_keep:
  fixes m :: "'a::zero memory"
  assumes ws: "well_strided c l" and tg: "target_ok c l tg" and b: "in_grid l b"
    and inv: "global_inv c l base tg q (state m)"
  shows "global_inv c l base tg q (state (UpPyramid identity_step c l b m))"
  using up_loop_keep [OF ws tg b kernel_setup_inv [OF ws b inv]]
  by (simp add: UpPyramid_def Let_def mem_inv_def)

lemma DownPyramid_keep:
  fixes m :: "'a::zero memory"
  assumes ws: "well_strided c l" and tg: "target_ok c l tg" and b: "in_grid l b"
    and inv: "global_inv c l base tg q (state m)"
  shows "global_inv c l base tg q (state (DownPyramid identity_step c l b m))"
  using down_loop_keep [OF ws tg b kernel_setup_inv [OF ws b inv]]
  by (simp add: DownPyramid_def Let_def mem_inv_def)

lemma UpPyramid_hit:
  fixes m :: "'a::zero memory"
  assumes ws: "well_strided c l" and tg: "target_ok c l tg" and b: "in_grid l b"
    and t0: "in_block l t0"
    and inv: "global_inv c l base tg False (state m)"
    and k: "k < MPSS c" and this_one: "tg = (b, t0, j0, Suc k)"
    and valid: "up_valid (up_bounds_at c l k) (fst t0 + OPS c) (snd t0 + OPS c)"
  shows "global_inv c l base tg True (state (UpPyramid identity_step c l b m))"
proof -
  have 1: "k < length [0..<MPSS c]" using k by simp
  have 2: "tg = (b, t0, j0, Suc ([0..<MPSS c] ! k))" using k this_one by simp
  have 3: "up_valid ((up_update c ^^ k) (up_bounds c l)) (fst t0 + OPS c) (snd t0 + OPS c)"
    using valid by (simp add: up_bounds_at_def)
  from up_loop_hit [OF ws tg b t0 kernel_setup_inv [OF ws b inv] 1 2 3]
  show ?thesis by (simp add: UpPyramid_def Let_def mem_inv_def)
qed

lemma DownPyramid_hit:
  fixes m :: "'a::zero memory"
  assumes ws: "well_strided c l" and tg: "target_ok c l tg" and b: "in_grid l b"
    and t0: "in_block l t0"
    and inv: "global_inv c l base tg False (state m)"
    and k: "k < MPSS c" and this_one: "tg = (b, t0, j0, Suc k)"
    and valid: "down_valid (down_bounds_at c l k) (fst t0 + OPS c) (snd t0 + OPS c)"
  shows "global_inv c l base tg True (state (DownPyramid identity_step c l b m))"
proof -
  have 1: "k < length [0..<MPSS c]" using k by simp
  have 2: "tg = (b, t0, j0, Suc ([0..<MPSS c] ! k))" using k this_one by simp
  have 3: "down_valid ((down_update c ^^ k) (down_bounds c l)) (fst t0 + OPS c) (snd t0 + OPS c)"
    using valid by (simp add: down_bounds_at_def)
  from down_loop_hit [OF ws tg b t0 kernel_setup_inv [OF ws b inv] 1 2 3]
  show ?thesis by (simp add: DownPyramid_def Let_def mem_inv_def)
qed

lemma launch_keep:
  fixes st :: "nat \<Rightarrow> 'a"
  assumes keep: "\<And>b (m :: 'a memory). in_grid l b \<Longrightarrow> J (state m) \<Longrightarrow> J (state (body b m))"
    and inv: "J st"
  shows "J (launch_kernel body l junk st)"
  unfolding launch_kernel_def
proof (rule fold_keep [where J = J])
  show "J st" by (rule inv)
  show "J (state (body b \<lparr>shared_state = junk, state = s\<rparr>))"
    if "b \<in> set (blocks l)" "J s" for b and s :: "nat \<Rightarrow> 'a"
  proof -
    have "in_grid l b" using that(1) by (simp add: set_blocks)
    from keep [OF this, of "\<lparr>shared_state = junk, state = s\<rparr>"] that(2) show ?thesis by simp
  qed
qed

lemma launch_hit:
  fixes st :: "nat \<Rightarrow> 'a"
  assumes keep: "\<And>b q (m :: 'a memory). in_grid l b \<Longrightarrow> J q (state m) \<Longrightarrow> J q (state (body b m))"
    and hit: "\<And>m :: 'a memory. J False (state m) \<Longrightarrow> J True (state (body b0 m))"
    and b0: "in_grid l b0"
    and inv: "J False st"
  shows "J True (launch_kernel body l junk st)"
  unfolding launch_kernel_def
proof (rule fold_hit [where J = J and x = b0])
  show "b0 \<in> set (blocks l)" using b0 by (simp add: set_blocks)
  show "J False st" by (rule inv)
  show "J q (state (body b \<lparr>shared_state = junk, state = s\<rparr>))"
    if "b \<in> set (blocks l)" "J q s" for b q and s :: "nat \<Rightarrow> 'a"
  proof -
    have "in_grid l b" using that(1) by (simp add: set_blocks)
    from keep [OF this, of q "\<lparr>shared_state = junk, state = s\<rparr>"] that(2) show ?thesis by simp
  qed
  show "J True (state (body b0 \<lparr>shared_state = junk, state = s\<rparr>))"
    if "J False s" for s :: "nat \<Rightarrow> 'a"
    using hit [of "\<lparr>shared_state = junk, state = s\<rparr>"] that by simp
qed

text \<open>
  Claim C5. With strides that keep planes and time levels apart, launch UpPyramid and then
  DownPyramid over the grid with the identity update. Every cell that one of the two stages
  writes at a time level \<open>k + 1\<close>, that is the cell of a thread inside the up region or the
  down region of step \<open>k\<close>, holds at that level the value the cell had at time level 0
  before the launches, and the cells of time level 0 are as they were.
\<close>

theorem round_trip_identity:
  fixes st :: "nat \<Rightarrow> 'a::zero"
  assumes ws: "well_strided c l"
    and b: "in_grid l b" and t: "in_block l t" and j: "j < NV c" and k: "k < MPSS c"
    and valid: "up_valid (up_bounds_at c l k) (fst t + OPS c) (snd t + OPS c)
        \<or> down_valid (down_bounds_at c l k) (fst t + OPS c) (snd t + OPS c)"
  shows "launch_kernel (DownPyramid identity_step c l) l junk'
           (launch_kernel (UpPyramid identity_step c l) l junk st)
           (get_gid c l b t + j * VARS c + (k + 1) * TIMES c)
         = st (get_gid c l b t + j * VARS c)
       \<and> launch_kernel (DownPyramid identity_step c l) l junk'
           (launch_kernel (UpPyramid identity_step c l) l junk st)
           (get_gid c l b t + j * VARS c)
         = st (get_gid c l b t + j * VARS c)"
proof -
  define tg :: target where "tg = (b, t, j, Suc k)"
  have tg: "target_ok c l tg" using b t j by (simp add: target_ok_def tg_def)
  let ?up = "launch_kernel (UpPyramid identity_step c l) l junk st"
  let ?down = "launch_kernel (DownPyramid identity_step c l) l junk' ?up"
  have start: "global_inv c l st tg False st"
    by (simp add: global_inv_def level0_kept_def)
  have up_keep: "global_inv c l st tg q (state (UpPyramid identity_step c l b' m))"
    if "in_grid l b'" "global_inv c l st tg q (state m)" for b' q and m :: "'a memory"
    using UpPyramid_keep [OF ws tg that] .
  have down_keep: "global_inv c l st tg q (state (DownPyramid identity_step c l b' m))"
    if "in_grid l b'" "global_inv c l st tg q (state m)" for b' q and m :: "'a memory"
    using DownPyramid_keep [OF ws tg that] .
  have up0: "global_inv c l st tg False ?up"
    by (rule launch_keep [where J = "global_inv c l st tg False"]) (use up_keep start in auto)
  have "global_inv c l st tg True ?down"
  proof (cases "down_valid (down_bounds_at c l k) (fst t + OPS c) (snd t + OPS c)")
    case True
    show ?thesis
    proof (rule launch_hit [where J = "global_inv c l st tg" and ?b0.0 = b])
      show "global_inv c l st tg q (state (DownPyramid identity_step c l b' m))"
        if "in_grid l b'" "global_inv c l st tg q (state m)" for b' q and m :: "'a memory"
        using down_keep [OF that] .
      show "global_inv c l st tg True (state (DownPyramid identity_step c l b m))"
        if "global_inv c l st tg False (state m)" for m :: "'a memory"
        using DownPyramid_hit [OF ws tg b t that k _ True] by (simp add: tg_def)
      show "in_grid l b" by (rule b)
      show "global_inv c l st tg False ?up" by (rule up0)
    qed
  next
    case False
    then have uv: "up_valid (up_bounds_at c l k) (fst t + OPS c) (snd t + OPS c)"
      using valid by simp
    have up1: "global_inv c l st tg True ?up"
    proof (rule launch_hit [where J = "global_inv c l st tg" and ?b0.0 = b])
      show "global_inv c l st tg q (state (UpPyramid identity_step c l b' m))"
        if "in_grid l b'" "global_inv c l st tg q (state m)" for b' q and m :: "'a memory"
        using up_keep [OF that] .
      show "global_inv c l st tg True (state (UpPyramid identity_step c l b m))"
        if "global_inv c l st tg False (state m)" for m :: "'a memory"
        using UpPyramid_hit [OF ws tg b t that k _ uv] by (simp add: tg_def)
      show "in_grid l b" by (rule b)
      show "global_inv c l st tg False st" by (rule start)
    qed
    show ?thesis
      by (rule launch_keep [where J = "global_inv c l st tg True"]) (use down_keep up1 in auto)
  qed
  then have "?down (own_global c l b t j (Suc k)) = st (own_global c l b t j 0)"
    and "level0_kept c l st ?down"
    by (simp_all add: global_inv_def target_done_def tg_def)
  moreover from this(2) have "?down (own_global c l b t j 0) = st (own_global c l b t j 0)"
    using b t j unfolding level0_kept_def by blast
  ultimately show ?thesis by (simp add: own_global_def)
qed

theorem round_trip_identity_witness:
  "well_strided (cfg 1 1 2 36 100 100) (geom 2 2 4 4)
   \<and> in_grid (geom 2 2 4 4) (1, 0) \<and> in_block (geom 2 2 4 4) (1, 2)
   \<and> 0 < NV (cfg 1 1 2 36 100 100) \<and> 1 < MPSS (cfg 1 1 2 36 100 100)
   \<and> up_valid (up_bounds_at (cfg 1 1 2 36 100 100) (geom 2 2 4 4) 1)
        (fst (1, 2) + OPS (cfg 1 1 2 36 100 100)) (snd (1, 2) + OPS (cfg 1 1 2 36 100 100))
   \<and> launch_kernel (DownPyramid identity_step (cfg 1 1 2 36 100 100) (geom 2 2 4 4)) (geom 2 2 4 4)
         (\<lambda>a. 7)
         (launch_kernel (UpPyramid identity_step (cfg 1 1 2 36 100 100) (geom 2 2 4 4)) (geom 2 2 4 4)
            (\<lambda>a. 7) (\<lambda>a. int a))
         (get_gid (cfg 1 1 2 36 100 100) (geom 2 2 4 4) (1, 0) (1, 2)
            + 0 * VARS (cfg 1 1 2 36 100 100) + (1 + 1) * TIMES (cfg 1 1 2 36 100 100))
       = int (get_gid (cfg 1 1 2 36 100 100) (geom 2 2 4 4) (1, 0) (1, 2)
            + 0 * VARS (cfg 1 1 2 36 100 100))"
proof -
  have h: "well_strided (cfg 1 1 2 36 100 100) (geom 2 2 4 4)"
    "in_grid (geom 2 2 4 4) (1, 0)" "in_block (geom 2 2 4 4) (1, 2)"
    "0 < NV (cfg 1 1 2 36 100 100)" "1 < MPSS (cfg 1 1 2 36 100 100)"
    by (simp_all add: well_strided_def in_grid_def in_block_def cfg_def geom_def)
  have v: "up_valid (up_bounds_at (cfg 1 1 2 36 100 100) (geom 2 2 4 4) 1)
        (fst (1, 2) + OPS (cfg 1 1 2 36 100 100)) (snd (1, 2) + OPS (cfg 1 1 2 36 100 100))"
    by (simp add: up_valid_def up_bounds_at_def up_update_def up_bounds_def cfg_def geom_def)
  note T = round_trip_identity [OF h disjI1 [OF v], where junk = "\<lambda>a. 7" and junk' = "\<lambda>a. 7"
      and st = "\<lambda>a. int a"]
  show ?thesis by (intro conjI h v T [THEN conjunct1])
qed

section \<open>The tile with which the down pyramid enters its loop\<close>

text \<open>
  With the identity update the loop of the kernel leaves the tile buffer as it finds it: the
  update changes nothing and the write-back loop stores back into each tile cell the value it
  has just copied out of it. The tile buffer at the end of \<open>DownPyramid\<close> is then the tile
  with which the loop was entered.
\<close>

lemma write_back_thread_tile:
  "shared_state (write_back_thread c l b k t m) = shared_state m"
  by (simp add: write_back_thread_eq)

lemma sweep_step_identity_tile:
  fixes m :: "'a memory"
  shows "shared_state (sweep_step identity_step c l b k ts m) = shared_state m"
proof -
  have "shared_state (fold (write_back_thread c l b k) ts m') = shared_state m'"
    for m' :: "'a memory"
    by (induction ts arbitrary: m') (simp_all add: write_back_thread_tile)
  then show ?thesis by (simp add: sweep_step_def step_phase_identity)
qed

lemma down_loop_identity_tile:
  fixes m :: "'a memory"
  shows "shared_state (down_loop identity_step c l b ks bnds m) = shared_state m"
  by (induction ks arbitrary: bnds m) (simp_all add: sweep_step_identity_tile)

lemma DownPyramid_identity_tile:
  fixes m :: "'a::zero memory"
  shows "shared_state (DownPyramid identity_step c l b m)
     = seed c l b (state m) 0
         (edge_comm c l b (state m) (MPSS c) (shared_state_zero c l b (shared_state m)))"
  by (simp add: DownPyramid_def Let_def down_loop_identity_tile)

lemma DownPyramid_control_flow:
  "seed_levels (DownPyramid_events c l b t) = replicate (NV c) 0
   \<and> edge_levels (DownPyramid_events c l b t)
        = (if tgid_of l b t < blockDim_y l + 2 * OPS c then [MPSS c] else [])
   \<and> (MPSS c \<noteq> 0 \<longrightarrow>
        set (seed_levels (DownPyramid_events c l b t))
          \<inter> set (edge_levels (DownPyramid_events c l b t)) = {})"
  by (auto simp: DownPyramid_edge_levels DownPyramid_seed_levels_eq)

text \<open>
  Claim C10. In the DownPyramid kernel every thread copies its interior cell, for every
  variable, from time level 0 (the offset \<^verbatim>\<open>gid+i*VARS\<close> has no time-level term), while
  the edge copy reads time level \<open>MPSS\<close>; when \<open>MPSS\<close> is not zero the two levels differ.
  On the arrays: whatever the update, the kernel enters its loop with the tile that a run with
  the identity update leaves in the tile buffer. In that tile every interior cell holds the
  value of its thread's cell of the global array at time level 0, and every halo cell holds
  what the edge exchange at time level \<open>MPSS\<close>, run on the cleared tile, has put there. A
  halo cell that the copy loops of the edge exchange visit holds the value of its cell of the
  global array at time level \<open>MPSS\<close>; this on a grid plane of at most \<open>2^31\<close> cells,
  whose offsets fit the \<^verbatim>\<open>int\<close> of the source.
\<close>

theorem DownPyramid_seed_and_halo_levels:
  fixes m :: "'a::zero memory"
  shows "seed_levels (DownPyramid_events c l b t) = replicate (NV c) 0
   \<and> edge_levels (DownPyramid_events c l b t)
        = (if tgid_of l b t < blockDim_y l + 2 * OPS c then [MPSS c] else [])
   \<and> (MPSS c \<noteq> 0 \<longrightarrow>
        set (seed_levels (DownPyramid_events c l b t))
          \<inter> set (edge_levels (DownPyramid_events c l b t)) = {})
   \<and> (well_strided c l \<and> in_block l t \<and> j < NV c \<longrightarrow>
        shared_state (DownPyramid identity_step c l b m) (own_tile c l t j)
          = state m (own_global c l b t j 0))
   \<and> (well_strided c l \<and> halo c l x y \<longrightarrow>
        shared_state (DownPyramid identity_step c l b m) (tile_cell c l x y j)
          = edge_comm c l b (state m) (MPSS c) (shared_state_zero c l b (shared_state m))
              (tile_cell c l x y j))
   \<and> (well_strided c l
        \<and> (gridDim_x l * blockDim_x l + 2 * OPS c) * (gridDim_y l * blockDim_y l + 2 * OPS c)
             \<le> 2 ^ 31
        \<and> in_grid l b \<and> halo c l x y \<and> edge_copied c l x y \<and> j < NV c \<longrightarrow>
        shared_state (DownPyramid identity_step c l b m) (tile_cell c l x y j)
          = state m (global_cell c l b x y j (MPSS c)))
   \<and> DownPyramid step c l b m
       = down_loop step c l b [0..<MPSS c] (down_bounds c l)
           (m\<lparr>shared_state := shared_state (DownPyramid identity_step c l b m)\<rparr>)"
proof -
  note F = DownPyramid_control_flow [of c l b t]
  have s4: "DownPyramid step c l b m
       = down_loop step c l b [0..<MPSS c] (down_bounds c l)
           (m\<lparr>shared_state := shared_state (DownPyramid identity_step c l b m)\<rparr>)"
    unfolding DownPyramid_identity_tile by (simp add: DownPyramid_def Let_def)
  let ?cleared = "shared_state_zero c l b (shared_state m)"
  have s1: "well_strided c l \<and> in_block l t \<and> j < NV c \<longrightarrow>
        shared_state (DownPyramid identity_step c l b m) (own_tile c l t j)
          = state m (own_global c l b t j 0)"
    using seed_own [of c l t j b "state m" 0 "edge_comm c l b (state m) (MPSS c) ?cleared"]
    by (simp add: DownPyramid_identity_tile own_global_def)
  have s2: "well_strided c l \<and> halo c l x y \<longrightarrow>
        shared_state (DownPyramid identity_step c l b m) (tile_cell c l x y j)
          = edge_comm c l b (state m) (MPSS c) ?cleared (tile_cell c l x y j)"
    using seed_keeps_halo [of c l x y b "state m" 0 "edge_comm c l b (state m) (MPSS c) ?cleared" j]
    by (simp add: DownPyramid_identity_tile)
  have s3: "well_strided c l
        \<and> (gridDim_x l * blockDim_x l + 2 * OPS c) * (gridDim_y l * blockDim_y l + 2 * OPS c)
             \<le> 2 ^ 31
        \<and> in_grid l b \<and> halo c l x y \<and> edge_copied c l x y \<and> j < NV c \<longrightarrow>
        shared_state (DownPyramid identity_step c l b m) (tile_cell c l x y j)
          = state m (global_cell c l b x y j (MPSS c))"
  proof (intro impI, elim conjE)
    assume ws: "well_strided c l"
      and fit: "(gridDim_x l * blockDim_x l + 2 * OPS c) * (gridDim_y l * blockDim_y l + 2 * OPS c)
             \<le> 2 ^ 31"
      and b: "in_grid l b" and h: "halo c l x y" and v: "edge_copied c l x y"
      and j: "j < NV c"
    have "(2::nat) ^ 31 \<le> 2 ^ 32" by simp
    with fit have fit32:
      "(gridDim_x l * blockDim_x l + 2 * OPS c) * (gridDim_y l * blockDim_y l + 2 * OPS c) \<le> 2 ^ 32"
      by (rule order_trans)
    have S: "(blockDim_y l + 2 * OPS c) * (blockDim_x l + 2 * OPS c) \<le> SGIDS c"
      using ws by (simp add: well_strided_def)
    have "edge_comm c l b (state m) (MPSS c) ?cleared (tile_cell c l x y j)
        = state m (global_cell c l b x y j (MPSS c))"
      by (rule edge_comm_copies [where sh = ?cleared and st = "state m", OF fit32 b S v j])
    with s2 ws h show "shared_state (DownPyramid identity_step c l b m) (tile_cell c l x y j)
          = state m (global_cell c l b x y j (MPSS c))"
      by simp
  qed
  show ?thesis
    by (intro conjI; (rule s1 s2 s3 s4 | (insert F, elim conjE, assumption)))
qed

theorem DownPyramid_seed_and_halo_levels_witness:
  "MPSS (cfg 1 1 2 36 100 100) \<noteq> 0
   \<and> well_strided (cfg 1 1 2 36 100 100) (geom 2 2 4 4)
   \<and> (gridDim_x (geom 2 2 4 4) * blockDim_x (geom 2 2 4 4) + 2 * OPS (cfg 1 1 2 36 100 100))
        * (gridDim_y (geom 2 2 4 4) * blockDim_y (geom 2 2 4 4) + 2 * OPS (cfg 1 1 2 36 100 100))
        \<le> 2 ^ 31
   \<and> in_grid (geom 2 2 4 4) (1, 0)
   \<and> in_block (geom 2 2 4 4) (1, 1)
   \<and> 0 < NV (cfg 1 1 2 36 100 100)
   \<and> halo (cfg 1 1 2 36 100 100) (geom 2 2 4 4) 0 5
   \<and> edge_copied (cfg 1 1 2 36 100 100) (geom 2 2 4 4) 0 5
   \<and> set (seed_levels (DownPyramid_events (cfg 1 1 2 36 100 100) (geom 2 2 4 4) (1, 0) (1, 1)))
        \<inter> set (edge_levels (DownPyramid_events (cfg 1 1 2 36 100 100) (geom 2 2 4 4) (1, 0) (1, 1))) = {}
   \<and> shared_state (DownPyramid identity_step (cfg 1 1 2 36 100 100) (geom 2 2 4 4) (1, 0)
          \<lparr>shared_state = \<lambda>a. 7, state = \<lambda>a. int a\<rparr>)
        (own_tile (cfg 1 1 2 36 100 100) (geom 2 2 4 4) (1, 1) 0)
        = int (own_global (cfg 1 1 2 36 100 100) (geom 2 2 4 4) (1, 0) (1, 1) 0 0)
   \<and> shared_state (DownPyramid identity_step (cfg 1 1 2 36 100 100) (geom 2 2 4 4) (1, 0)
          \<lparr>shared_state = \<lambda>a. 7, state = \<lambda>a. int a\<rparr>)
        (tile_cell (cfg 1 1 2 36 100 100) (geom 2 2 4 4) 0 5 0)
        = int (global_cell (cfg 1 1 2 36 100 100) (geom 2 2 4 4) (1, 0) 0 5 0
                 (MPSS (cfg 1 1 2 36 100 100)))"
proof -
  let ?c = "cfg 1 1 2 36 100 100" and ?l = "geom 2 2 4 4"
  let ?m = "\<lparr>shared_state = \<lambda>a. 7, state = \<lambda>a. int a\<rparr> :: int memory"
  have h: "MPSS ?c \<noteq> 0"
    "well_strided ?c ?l"
    "(gridDim_x ?l * blockDim_x ?l + 2 * OPS ?c) * (gridDim_y ?l * blockDim_y ?l + 2 * OPS ?c)
        \<le> 2 ^ 31"
    "in_grid ?l (1, 0)"
    "in_block ?l (1, 1)"
    "0 < NV ?c"
    "halo ?c ?l 0 5"
    "edge_copied ?c ?l 0 5"
    by (simp_all add: well_strided_def in_grid_def in_block_def halo_def edge_copied_def
        cfg_def geom_def)
  note T = DownPyramid_seed_and_halo_levels [where c = ?c and l = ?l
        and b = "(1, 0)" and t = "(1, 1)" and j = 0 and x = 0 and y = 5 and m = ?m]
  have c0: "set (seed_levels (DownPyramid_events ?c ?l (1, 0) (1, 1)))
        \<inter> set (edge_levels (DownPyramid_events ?c ?l (1, 0) (1, 1))) = {}"
    by (rule mp [OF T [THEN conjunct2, THEN conjunct2, THEN conjunct1]]) (rule h)
  have c1: "shared_state (DownPyramid identity_step ?c ?l (1, 0) ?m) (own_tile ?c ?l (1, 1) 0)
        = state ?m (own_global ?c ?l (1, 0) (1, 1) 0 0)"
    by (rule mp [OF T [THEN conjunct2, THEN conjunct2, THEN conjunct2, THEN conjunct1]])
       (intro conjI h)
  have c2: "shared_state (DownPyramid identity_step ?c ?l (1, 0) ?m) (tile_cell ?c ?l 0 5 0)
        = state ?m (global_cell ?c ?l (1, 0) 0 5 0 (MPSS ?c))"
    by (rule mp [OF T [THEN conjunct2, THEN conjunct2, THEN conjunct2, THEN conjunct2,
            THEN conjunct2, THEN conjunct1]])
       (intro conjI h)
  have c1': "shared_state (DownPyramid identity_step ?c ?l (1, 0) ?m) (own_tile ?c ?l (1, 1) 0)
        = int (own_global ?c ?l (1, 0) (1, 1) 0 0)"
    unfolding c1 by simp
  have c2': "shared_state (DownPyramid identity_step ?c ?l (1, 0) ?m) (tile_cell ?c ?l 0 5 0)
        = int (global_cell ?c ?l (1, 0) 0 5 0 (MPSS ?c))"
    unfolding c2 by simp
  show ?thesis by (intro conjI h c0 c1' c2')
qed

end
